theory Spec2Isabelle
  imports Main "HOL-Library.Sublist" "HOL-Library.AList" "HOL-Library.Multiset"
begin

section \<open>Object model of the object browser store\<close>

text \<open>
  The store is the \<open>objectBrowser\<close> pinia store (\<open>useObjectBrowserStore\<close>). Its state
  is the class \<open>FilesState\<close>; its actions mutate that state and talk to the S3 client.
  Every action is embedded as a function from the state to a \<open>Run\<close>: the error thrown
  (if any), the state as the action left it, and the calls it made to its collaborators.
  The answers of the backend are arguments of the action.
\<close>

text \<open>A JavaScript \<open>Date\<close>: \<open>===\<close> compares the object (\<open>dateRef\<close>), \<open><\<close> and
  \<open>getTime()\<close> compare the time value.\<close>

record Date =
  dateRef :: nat
  getTime :: int

datatype ObjType = TFile | TFolder

record File =
  fileName :: string
  fileSize :: int

text \<open>
  One record for the objects that flow through the lists: an S3 \<open>_Object\<close>, an
  \<open>ObjectVersion\<close>, a \<open>DeleteMarkerEntry\<close> and the flat part of a \<open>BrowserObject\<close>.
  An absent property is \<open>None\<close>; \<open>otype\<close> is the property \<open>type\<close>, \<open>uploadHandle\<close>
  says whether the property \<open>upload\<close> is set.
\<close>

record JsObject =
  Key :: string
  VersionId :: "string option"
  Size :: "int option"
  LastModified :: "Date option"
  IsLatest :: "bool option"
  otype :: "ObjType option"
  isDeleteMarker :: "bool option"
  isLatest :: "bool option"
  progress :: "int option"
  uploadHandle :: bool
  path :: "string option"

record BrowserObject = JsObject +
  Versions :: "JsObject list option"

datatype UploadingStatus = InProgress | Finished | Failed | Cancelled

datatype FailedUploadMessage = MsgFailed | TooBig

record UploadingBrowserObject = BrowserObject +
  status :: UploadingStatus
  Bucket :: string
  Body :: File
  failedMessage :: "FailedUploadMessage option"

record ObjectBrowserCursor =
  page :: int
  limit :: int

record ObjectRange =
  rangeStart :: int
  rangeEnd :: int

record S3Client =
  accessKeyId :: string
  secretAccessKey :: string
  endpoint :: string

record PreviewCache =
  url :: string
  lastModified :: int

record FilesState =
  s3 :: "S3Client option"
  accessKey :: "string option"
  statePath :: string
  bucket :: string
  browserRoot :: string
  files :: "BrowserObject list"
  cursor :: ObjectBrowserCursor
  continuationTokens :: "(int \<times> string) list"
  totalObjectCount :: int
  activeObjectsRange :: ObjectRange
  uploadChain :: "string list"
  uploading :: "UploadingBrowserObject list"
  selectedFiles :: "BrowserObject list"
  filesToBeDeleted :: "string set"
  openedDropdown :: "string option"
  headingSorted :: string
  orderByAsc :: bool
  openModalOnFirstUpload :: bool
  objectPathForModal :: string
  cachedObjectPreviewURLs :: "(string \<times> PreviewCache) list"
  showObjectVersions :: bool
  versionsExpandedKeys :: "string list"
  objectCountOfSelectedBucket :: int

text \<open>
  What the store takes from outside: the clock (\<open>new Date()\<close>), the imported constant
  \<open>DEFAULT_PAGE_LIMIT\<close>, the two settings of the config store that \<open>isAltPagination\<close>
  reads, the object count remembered in local storage, and the engine's
  \<open>Array.prototype.sort\<close>.
\<close>

record Env =
  now :: Date
  DEFAULT_PAGE_LIMIT :: int
  altObjBrowserPagingEnabled :: bool
  altObjBrowserPagingThreshold :: int
  storedObjectCount :: "int option"
  arraySort :: "(JsObject \<Rightarrow> JsObject \<Rightarrow> int) \<Rightarrow> JsObject list \<Rightarrow> JsObject list"

record JsError =
  errName :: string
  errMessage :: string

datatype error =
    UninitializedError
  | TransportError JsError
  | DuplicateUploadError "string list"
  | FileNotFoundError string
  | TypeError

record CommonPrefix =
  Prefix :: "string option"

record ListObjectsV2Output =
  Contents :: "JsObject list option"
  CommonPrefixes :: "CommonPrefix list option"
  KeyCount :: "int option"
  NextContinuationToken :: "string option"

record ListObjectVersionsOutput =
  respVersions :: "JsObject list option"
  DeleteMarkers :: "JsObject list option"
  versCommonPrefixes :: "CommonPrefix list option"
  NextKeyMarker :: "string option"
  NextVersionIdMarker :: "string option"
  IsTruncated :: "bool option"

datatype Command =
    ListObjectVersionsCommand string "string option"
  | ListObjectsV2Command string "string option"
  | ListObjectsCommand string
  | DeleteObjectCommand string "string option"
  | PutObjectCommand string

datatype Call =
    Send Command
  | NotifyError string
  | SetUploadingModal bool
  | NewUpload string
  | UploadAbort string

record Run =
  thrown :: "error option"
  final :: FilesState
  trace :: "Call list"

definition MAX_KEY_COUNT :: int where
  "MAX_KEY_COUNT = 500"

definition returns :: "FilesState \<Rightarrow> Call list \<Rightarrow> Run" where
  "returns st cs = \<lparr>thrown = None, final = st, trace = cs\<rparr>"

definition throws :: "error \<Rightarrow> FilesState \<Rightarrow> Call list \<Rightarrow> Run" where
  "throws e st cs = \<lparr>thrown = Some e, final = st, trace = cs\<rparr>"

text \<open>Sequencing of two awaited actions: the second runs on the state the first left,
  unless the first threw.\<close>

definition andThen :: "Run \<Rightarrow> (FilesState \<Rightarrow> Run) \<Rightarrow> Run" where
  "andThen r f =
     (case thrown r of
        Some e \<Rightarrow> r
      | None \<Rightarrow> (let r' = f (final r) in r'\<lparr>trace := trace r @ trace r'\<rparr>))"

definition isInitialized :: "FilesState \<Rightarrow> bool" where
  "isInitialized st = (s3 st \<noteq> None)"

definition isAltPagination :: "Env \<Rightarrow> FilesState \<Rightarrow> bool" where
  "isAltPagination env st =
     (altObjBrowserPagingEnabled env \<and>
      objectCountOfSelectedBucket st > altObjBrowserPagingThreshold env)"

definition initialState :: "Env \<Rightarrow> FilesState" where
  "initialState env =
     \<lparr>s3 = None, accessKey = None, statePath = [], bucket = [], browserRoot = ''/'',
      files = [], cursor = \<lparr>page = 1, limit = DEFAULT_PAGE_LIMIT env\<rparr>,
      continuationTokens = [], totalObjectCount = 0,
      activeObjectsRange = \<lparr>rangeStart = 1, rangeEnd = 500\<rparr>,
      uploadChain = [], uploading = [], selectedFiles = [], filesToBeDeleted = {},
      openedDropdown = None, headingSorted = ''name'', orderByAsc = True,
      openModalOnFirstUpload = False, objectPathForModal = [],
      cachedObjectPreviewURLs = [], showObjectVersions = False,
      versionsExpandedKeys = [],
      objectCountOfSelectedBucket =
        (case storedObjectCount env of None \<Rightarrow> 0 | Some n \<Rightarrow> n)\<rparr>"

definition setCursor :: "ObjectBrowserCursor \<Rightarrow> FilesState \<Rightarrow> FilesState" where
  "setCursor c st = st\<lparr>cursor := c\<rparr>"

definition init :: "string \<Rightarrow> string \<Rightarrow> string \<Rightarrow> string \<Rightarrow> string \<Rightarrow> bool \<Rightarrow>
    FilesState \<Rightarrow> FilesState" where
  "init accessKey' secretKey bucket' endpoint' browserRoot' openModal st =
     st\<lparr>s3 := Some \<lparr>accessKeyId = accessKey', secretAccessKey = secretKey,
                     endpoint = endpoint'\<rparr>,
        accessKey := Some accessKey',
        bucket := bucket',
        browserRoot := browserRoot',
        openModalOnFirstUpload := openModal,
        statePath := [],
        files := []\<rparr>"

definition reinit :: "string \<Rightarrow> string \<Rightarrow> string \<Rightarrow> FilesState \<Rightarrow> FilesState" where
  "reinit accessKey' secretKey endpoint' st =
     st\<lparr>files := [],
        s3 := Some \<lparr>accessKeyId = accessKey', secretAccessKey = secretKey,
                     endpoint = endpoint'\<rparr>,
        accessKey := Some accessKey'\<rparr>"

definition updateFiles :: "string \<Rightarrow> BrowserObject list \<Rightarrow> FilesState \<Rightarrow> FilesState" where
  "updateFiles p fs st = st\<lparr>statePath := p, files := fs\<rparr>"

definition updateVersionsExpandedKeys :: "string list \<Rightarrow> FilesState \<Rightarrow> FilesState" where
  "updateVersionsExpandedKeys keys st = st\<lparr>versionsExpandedKeys := keys\<rparr>"

definition updateSelectedFiles :: "BrowserObject list \<Rightarrow> FilesState \<Rightarrow> FilesState" where
  "updateSelectedFiles fs st = st\<lparr>selectedFiles := fs\<rparr>"

definition clearTokens :: "FilesState \<Rightarrow> FilesState" where
  "clearTokens st = st\<lparr>continuationTokens := []\<rparr>"

definition clearUploading :: "FilesState \<Rightarrow> FilesState" where
  "clearUploading st = st\<lparr>uploading := []\<rparr>"

definition toggleShowObjectVersions :: "FilesState \<Rightarrow> FilesState" where
  "toggleShowObjectVersions st =
     (let st1 = clearTokens st;
          st2 = updateVersionsExpandedKeys [] st1;
          st3 = updateSelectedFiles [] st2;
          st4 = updateFiles (statePath st3) [] st3
      in st4\<lparr>showObjectVersions := \<not> showObjectVersions st4\<rparr>)"

definition clear :: "Env \<Rightarrow> FilesState \<Rightarrow> FilesState" where
  "clear env st =
     st\<lparr>s3 := None, accessKey := None, statePath := [], bucket := [], browserRoot := ''/'',
        files := [], cursor := \<lparr>page = 1, limit = DEFAULT_PAGE_LIMIT env\<rparr>,
        continuationTokens := [], totalObjectCount := 0,
        activeObjectsRange := \<lparr>rangeStart = 1, rangeEnd = 500\<rparr>,
        uploadChain := [], uploading := [], selectedFiles := [], filesToBeDeleted := {},
        openedDropdown := None, headingSorted := ''name'', orderByAsc := True,
        openModalOnFirstUpload := False, objectPathForModal := [],
        cachedObjectPreviewURLs := [], showObjectVersions := False,
        versionsExpandedKeys := [], objectCountOfSelectedBucket := 0\<rparr>"

section \<open>Path mapper\<close>

text \<open>\<open>String.prototype.includes\<close> is the contiguous-substring test.\<close>

definition isFileVisible :: "'a JsObject_scheme \<Rightarrow> bool" where
  "isFileVisible file =
     (length (Key file) > 0 \<and> \<not> sublist ''.file_placeholder'' (Key file))"

definition isPrefixDefined :: "CommonPrefix \<Rightarrow> bool" where
  "isPrefixDefined v = (Prefix v \<noteq> None)"

text \<open>\<open>Prefix.slice(path.length, -1)\<close>: drop the path, then the last character.\<close>

definition prefixToFolder :: "Env \<Rightarrow> string \<Rightarrow> CommonPrefix \<Rightarrow> BrowserObject" where
  "prefixToFolder env p cp =
     \<lparr>Key = butlast (drop (length p) (case Prefix cp of None \<Rightarrow> [] | Some s \<Rightarrow> s)),
      VersionId = None, Size = Some 0, LastModified = Some (now env), IsLatest = None,
      otype = Some TFolder, isDeleteMarker = None, isLatest = None, progress = None,
      uploadHandle = False, path = Some p, Versions = None\<rparr>"

definition makeFileRelative :: "string \<Rightarrow> 'a JsObject_scheme \<Rightarrow> 'a JsObject_scheme" where
  "makeFileRelative p file =
     file\<lparr>Key := drop (length p) (Key file), path := Some p, otype := Some TFile\<rparr>"

text \<open>A listed object enters \<open>files\<close> as a \<open>BrowserObject\<close> with no \<open>Versions\<close>.\<close>

definition asBrowserObject :: "JsObject \<Rightarrow> BrowserObject" where
  "asBrowserObject f = JsObject.extend f (BrowserObject.fields None)"

definition orEmpty :: "'a list option \<Rightarrow> 'a list" where
  "orEmpty v = (case v of None \<Rightarrow> [] | Some xs \<Rightarrow> xs)"

definition orBlank :: "string option \<Rightarrow> string" where
  "orBlank v = (case v of None \<Rightarrow> [] | Some s \<Rightarrow> s)"

text \<open>A string is truthy when it is defined and not empty.\<close>

definition truthy :: "string option \<Rightarrow> bool" where
  "truthy v = (case v of None \<Rightarrow> False | Some s \<Rightarrow> s \<noteq> [])"

section \<open>Array.prototype.sort\<close>

text \<open>
  ECMAScript fixes the result of \<open>sort\<close> only for a consistent comparator: then the result
  is the sorted permutation that keeps the order of the elements that compare equal, which
  is what the insertion sort below computes. For any other comparator the order is
  implementation-defined. The engine's sort is therefore a parameter (\<open>arraySort\<close>), and
  \<open>conformingSort\<close> is the contract every engine meets.
\<close>

fun insertBy :: "('a \<Rightarrow> 'a \<Rightarrow> int) \<Rightarrow> 'a \<Rightarrow> 'a list \<Rightarrow> 'a list" where
  "insertBy cmp x [] = [x]"
| "insertBy cmp x (y # ys) =
     (if cmp x y \<le> 0 then x # y # ys else y # insertBy cmp x ys)"

definition insertionSort :: "('a \<Rightarrow> 'a \<Rightarrow> int) \<Rightarrow> 'a list \<Rightarrow> 'a list" where
  "insertionSort cmp xs = foldr (insertBy cmp) xs []"

text \<open>An engine that places an item after the sorted ones it does not precede (it only
  tests \<open>comparefn(item, other) < 0\<close>), building the result from the left.\<close>

fun insertAfter :: "('a \<Rightarrow> 'a \<Rightarrow> int) \<Rightarrow> 'a \<Rightarrow> 'a list \<Rightarrow> 'a list" where
  "insertAfter cmp x [] = [x]"
| "insertAfter cmp x (y # ys) =
     (if cmp x y < 0 then x # y # ys else y # insertAfter cmp x ys)"

definition leftInsertionSort :: "('a \<Rightarrow> 'a \<Rightarrow> int) \<Rightarrow> 'a list \<Rightarrow> 'a list" where
  "leftInsertionSort cmp xs = foldl (\<lambda>acc x. insertAfter cmp x acc) [] xs"

definition consistentComparator :: "('a \<Rightarrow> 'a \<Rightarrow> int) \<Rightarrow> 'a set \<Rightarrow> bool" where
  "consistentComparator cmp S =
     ((\<forall>a\<in>S. cmp a a = 0) \<and>
      (\<forall>a\<in>S. \<forall>b\<in>S. (cmp a b = 0) = (cmp b a = 0)) \<and>
      (\<forall>a\<in>S. \<forall>b\<in>S. (cmp a b < 0) = (cmp b a > 0)) \<and>
      (\<forall>a\<in>S. \<forall>b\<in>S. \<forall>c\<in>S. cmp a b = 0 \<and> cmp b c = 0 \<longrightarrow> cmp a c = 0) \<and>
      (\<forall>a\<in>S. \<forall>b\<in>S. \<forall>c\<in>S. cmp a b < 0 \<and> cmp b c < 0 \<longrightarrow> cmp a c < 0) \<and>
      (\<forall>a\<in>S. \<forall>b\<in>S. \<forall>c\<in>S. cmp a b > 0 \<and> cmp b c > 0 \<longrightarrow> cmp a c > 0))"

definition conformingSort ::
    "(('a \<Rightarrow> 'a \<Rightarrow> int) \<Rightarrow> 'a list \<Rightarrow> 'a list) \<Rightarrow> bool" where
  "conformingSort srt =
     (\<forall>cmp xs. consistentComparator cmp (set xs) \<longrightarrow> srt cmp xs = insertionSort cmp xs)"

section \<open>Listing\<close>

text \<open>The comparator \<open>processFetchedObjects\<close> hands to \<open>Contents.sort\<close>.\<close>

definition contentsCompare :: "JsObject \<Rightarrow> JsObject \<Rightarrow> int" where
  "contentsCompare a b =
     (case LastModified a of
        None \<Rightarrow> 0
      | Some da \<Rightarrow>
          (case LastModified b of
             None \<Rightarrow> 0
           | Some db \<Rightarrow>
               if dateRef da = dateRef db then 0
               else if getTime da < getTime db then - 1 else 1))"

definition processFetchedObjects ::
    "Env \<Rightarrow> string \<Rightarrow> JsObject list option \<Rightarrow> CommonPrefix list option \<Rightarrow>
     FilesState \<Rightarrow> FilesState" where
  "processFetchedObjects env p contents cps st =
     (let srtd = arraySort env contentsCompare (orEmpty contents);
          fs = map (prefixToFolder env p) (filter isPrefixDefined (orEmpty cps)) @
               filter isFileVisible (map (asBrowserObject \<circ> makeFileRelative p) srtd)
      in updateFiles p fs st)"

text \<open>
  \<open>initList\<close>. The paginator is the list of the outcomes of its page requests, in order;
  the loop takes them one by one and stops at a failed request, at a page with no
  continuation token, or when the paginator ends. The first request carries no
  continuation token, each later one the token of the page before it.
\<close>

fun pageRequests ::
    "string \<Rightarrow> string option \<Rightarrow> (error + ListObjectsV2Output) list \<Rightarrow> nat \<Rightarrow> Call list" where
  "pageRequests p tok (Inr response # rest) (Suc n) =
     Send (ListObjectsV2Command p tok) #
       pageRequests p (NextContinuationToken response) rest n"
| "pageRequests p tok (Inl e # rest) (Suc n) = [Send (ListObjectsV2Command p tok)]"
| "pageRequests p tok pages n = []"

fun drainPages ::
    "Env \<Rightarrow> string \<Rightarrow> (error + ListObjectsV2Output) list \<Rightarrow> int \<Rightarrow> int \<Rightarrow> FilesState \<Rightarrow>
     error option \<times> int \<times> FilesState \<times> nat" where
  "drainPages env p [] iteration keyCount st = (None, keyCount, st, 0)"
| "drainPages env p (Inl e # rest) iteration keyCount st = (Some e, keyCount, st, 1)"
| "drainPages env p (Inr response # rest) iteration keyCount st =
     (let st1 = (if iteration = 1
                 then (processFetchedObjects env p (Contents response)
                         (CommonPrefixes response) st)
                      \<lparr>activeObjectsRange := \<lparr>rangeStart = 1, rangeEnd = MAX_KEY_COUNT\<rparr>\<rparr>
                 else st);
          keyCount1 = keyCount + (case KeyCount response of None \<Rightarrow> 0 | Some n \<Rightarrow> n)
      in if \<not> truthy (NextContinuationToken response) then (None, keyCount1, st1, 1)
         else (case drainPages env p rest (iteration + 1) keyCount1
                      (st1\<lparr>continuationTokens :=
                             AList.update (MAX_KEY_COUNT * (iteration + 1))
                               (orBlank (NextContinuationToken response))
                               (continuationTokens st1)\<rparr>) of
                 (e, k, s, n) \<Rightarrow> (e, k, s, Suc n)))"

definition initList :: "Env \<Rightarrow> string \<Rightarrow> (error + ListObjectsV2Output) list \<Rightarrow>
    FilesState \<Rightarrow> Run" where
  "initList env p pages st =
     (if \<not> isInitialized st then throws UninitializedError st []
      else (case drainPages env p pages 1 0 st of
              (Some e, keyCount, st1, n) \<Rightarrow>
                throws e st1 (pageRequests p None pages n)
            | (None, keyCount, st1, n) \<Rightarrow>
                returns (st1\<lparr>totalObjectCount := (if p \<noteq> [] then keyCount - 1 else keyCount)\<rparr>)
                  (pageRequests p None pages n)))"

definition listByToken :: "Env \<Rightarrow> string \<Rightarrow> int \<Rightarrow> string \<Rightarrow> (error + ListObjectsV2Output) \<Rightarrow>
    FilesState \<Rightarrow> Run" where
  "listByToken env p key continuationToken out st =
     (if \<not> isInitialized st then throws UninitializedError st []
      else (case out of
              Inl e \<Rightarrow> throws e st [Send (ListObjectsV2Command p (Some continuationToken))]
            | Inr response \<Rightarrow>
                returns ((processFetchedObjects env p (Contents response)
                            (CommonPrefixes response) st)
                         \<lparr>activeObjectsRange :=
                            \<lparr>rangeStart = key - MAX_KEY_COUNT, rangeEnd = key\<rparr>\<rparr>)
                  [Send (ListObjectsV2Command p (Some continuationToken))]))"

definition listCustom :: "Env \<Rightarrow> string \<Rightarrow> int \<Rightarrow> bool \<Rightarrow> (error + ListObjectsV2Output) \<Rightarrow>
    FilesState \<Rightarrow> Run" where
  "listCustom env p pg saveNextToken out st =
     (if \<not> isInitialized st then throws UninitializedError st []
      else (let continuationToken = map_of (continuationTokens st) pg in
            case out of
              Inl e \<Rightarrow> throws e st [Send (ListObjectsV2Command p continuationToken)]
            | Inr response \<Rightarrow>
                (let st1 = processFetchedObjects env p (Contents response)
                             (CommonPrefixes response) st;
                     st2 = (if saveNextToken \<and> truthy (NextContinuationToken response)
                            then st1\<lparr>continuationTokens :=
                                       AList.update (pg + 1)
                                         (orBlank (NextContinuationToken response))
                                         (continuationTokens st1)\<rparr>
                            else st1)
                 in returns (st2\<lparr>cursor := (cursor st2)\<lparr>page := pg\<rparr>\<rparr>)
                      [Send (ListObjectsV2Command p continuationToken)])))"

text \<open>The batches \<open>initList\<close> drains: the pages up to the first failed request or the
  first page with no continuation token.\<close>

definition keyCountOf :: "ListObjectsV2Output \<Rightarrow> int" where
  "keyCountOf r = (case KeyCount r of None \<Rightarrow> 0 | Some n \<Rightarrow> n)"

fun drainedBatches :: "(error + ListObjectsV2Output) list \<Rightarrow> ListObjectsV2Output list" where
  "drainedBatches [] = []"
| "drainedBatches (Inl e # rest) = []"
| "drainedBatches (Inr r # rest) =
     r # (if truthy (NextContinuationToken r) then drainedBatches rest else [])"

text \<open>
  The answer of a standard object storage to a listing of the prefix \<open>p\<close> with delimiter
  \<open>/\<close> that fits one page: the objects under the prefix with no further delimiter, one
  common prefix for each first segment of the others, and \<open>KeyCount\<close>, the number of
  both.
\<close>

definition delimitedListing :: "JsObject list \<Rightarrow> string \<Rightarrow> ListObjectsV2Output" where
  "delimitedListing bkt p =
     (let under = filter (\<lambda>ob. prefix p (Key ob)) bkt;
          direct = filter (\<lambda>ob. CHR ''/'' \<notin> set (drop (length p) (Key ob))) under;
          cps = remdups
                  (map (\<lambda>ob. p @ takeWhile (\<lambda>c. c \<noteq> CHR ''/'') (drop (length p) (Key ob)) @ ''/'')
                     (filter (\<lambda>ob. CHR ''/'' \<in> set (drop (length p) (Key ob))) under))
      in \<lparr>Contents = Some direct,
          CommonPrefixes = Some (map (\<lambda>s. \<lparr>Prefix = Some s\<rparr>) cps),
          KeyCount = Some (int (length direct + length cps)),
          NextContinuationToken = None\<rparr>)"

text \<open>
  \<open>listAllVersions\<close>. The loop over \<open>allItems\<close> fills the \<open>Map\<close> \<open>groupedItems\<close>, kept
  here as an association list in insertion order; \<open>'Size' in item\<close> is \<open>Size item \<noteq> None\<close>.
\<close>

definition versionObject :: "Env \<Rightarrow> string \<Rightarrow> JsObject \<Rightarrow> JsObject" where
  "versionObject env p item =
     \<lparr>Key = Key item, VersionId = VersionId item,
      Size = Some (case Size item of None \<Rightarrow> 0 | Some n \<Rightarrow> n),
      LastModified = Some (case LastModified item of None \<Rightarrow> now env | Some d \<Rightarrow> d),
      IsLatest = None, otype = Some TFile,
      isDeleteMarker = Some (Size item = None),
      isLatest = Some (case Size item of
                         None \<Rightarrow> False
                       | Some n \<Rightarrow> (case IsLatest item of None \<Rightarrow> False | Some b \<Rightarrow> b)),
      progress = None, uploadHandle = False, path = Some p\<rparr>"

fun groupItems ::
    "Env \<Rightarrow> string \<Rightarrow> JsObject list \<Rightarrow> (string \<times> JsObject list) list \<Rightarrow>
     (string \<times> JsObject list) list" where
  "groupItems env p [] groupedItems = groupedItems"
| "groupItems env p (item0 # rest) groupedItems =
     (let item = makeFileRelative p item0 in
      if \<not> isFileVisible item then groupItems env p rest groupedItems
      else
        (let g1 = (if map_of groupedItems (Key item) = None
                   then AList.update (Key item) [] groupedItems else groupedItems);
             g2 = (case map_of g1 (Key item) of
                     None \<Rightarrow> g1
                   | Some xs \<Rightarrow> AList.update (Key item) (xs @ [versionObject env p item]) g1)
         in groupItems env p rest g2))"

text \<open>\<open>new Date(x ?? 0).getTime()\<close>\<close>

definition timeOf :: "Date option \<Rightarrow> int" where
  "timeOf d = (case d of None \<Rightarrow> 0 | Some x \<Rightarrow> getTime x)"

definition versionsCompare :: "JsObject \<Rightarrow> JsObject \<Rightarrow> int" where
  "versionsCompare a b = timeOf (LastModified b) - timeOf (LastModified a)"

text \<open>The loop over \<open>groupedItems.entries()\<close>: \<open>items[0]\<close> of an empty array is
  \<open>undefined\<close>, and reading its \<open>path\<close> throws.\<close>

fun latestObjects ::
    "Env \<Rightarrow> (string \<times> JsObject list) list \<Rightarrow> error + (string list \<times> BrowserObject list)" where
  "latestObjects env [] = Inr ([], [])"
| "latestObjects env ((key, items) # rest) =
     (case arraySort env versionsCompare items of
        [] \<Rightarrow> Inl TypeError
      | item # others \<Rightarrow>
          (case latestObjects env rest of
             Inl e \<Rightarrow> Inl e
           | Inr (keys, rows) \<Rightarrow>
               Inr ((orBlank (path item) @ Key item) # keys,
                    \<lparr>Key = key, VersionId = None, Size = Size item,
                     LastModified = LastModified item, IsLatest = None, otype = otype item,
                     isDeleteMarker = isDeleteMarker item, isLatest = None, progress = None,
                     uploadHandle = False, path = path item,
                     Versions = Some (item # others)\<rparr> # rows)))"

definition listAllVersions ::
    "Env \<Rightarrow> string \<Rightarrow> int \<Rightarrow> bool \<Rightarrow> (error + ListObjectVersionsOutput) \<Rightarrow>
     FilesState \<Rightarrow> Run" where
  "listAllVersions env p pg saveNextToken out st =
     (if \<not> isInitialized st then throws UninitializedError st []
      else
        (let continuationToken = map_of (continuationTokens st) pg;
             st1 = st\<lparr>cursor := (cursor st)\<lparr>page := pg\<rparr>\<rparr>;
             sent = [Send (ListObjectVersionsCommand p continuationToken)]
         in case out of
              Inl e \<Rightarrow> throws e st1 sent
            | Inr response \<Rightarrow>
                (let allItems = orEmpty (respVersions response) @ orEmpty (DeleteMarkers response)
                 in case latestObjects env (groupItems env p allItems []) of
                      Inl e \<Rightarrow> throws e st1 sent
                    | Inr (keys, rows) \<Rightarrow>
                        (let st2 = updateVersionsExpandedKeys keys st1;
                             nextToken = orBlank (NextKeyMarker response) @ ''::'' @
                                         orBlank (NextVersionIdMarker response);
                             st3 = (if saveNextToken \<and> nextToken \<noteq> ''::''
                                    then st2\<lparr>continuationTokens :=
                                               AList.update (pg + 1) nextToken
                                                 (continuationTokens st2)\<rparr>
                                    else st2);
                             st4 = st3\<lparr>statePath := p\<rparr>;
                             folders = orEmpty (versCommonPrefixes response)
                         in returns
                              (updateFiles p
                                 (map (prefixToFolder env p) (filter isPrefixDefined folders) @
                                  rows) st4)
                              sent))))"

text \<open>
  The entries of a version listing as the claim about grouping speaks of them: the
  returned versions and delete markers, made relative to the prefix, without the
  invisible ones; the group of a key; and the row that represents a group.
\<close>

definition groupOf :: "string \<Rightarrow> JsObject list \<Rightarrow> JsObject list" where
  "groupOf k xs = filter (\<lambda>x. Key x = k) xs"

definition entriesOf :: "Env \<Rightarrow> string \<Rightarrow> JsObject list \<Rightarrow> JsObject list" where
  "entriesOf env p items =
     map (versionObject env p) (filter isFileVisible (map (makeFileRelative p) items))"

definition representative :: "string \<Rightarrow> JsObject list \<Rightarrow> BrowserObject \<Rightarrow> bool" where
  "representative k xs row =
     (case insertionSort versionsCompare xs of
        [] \<Rightarrow> False
      | v # vs \<Rightarrow>
          row = \<lparr>Key = k, VersionId = None, Size = Size v, LastModified = LastModified v,
                 IsLatest = None, otype = otype v, isDeleteMarker = isDeleteMarker v,
                 isLatest = None, progress = None, uploadHandle = False, path = path v,
                 Versions = Some (v # vs)\<rparr>)"

text \<open>
  What the listing is measured against: the entries of the response as they arrived, the
  key of an entry relative to the browsed prefix, the keys that are shown, the date of an
  entry (one without \<open>LastModified\<close> counts as dated now), the entries of one key and
  their order from the most recent to the oldest, entries of the same time staying in the
  order of the response. In a well-shaped response the versions carry a \<open>Size\<close> and the
  delete markers carry none.
\<close>

definition returnedEntries :: "ListObjectVersionsOutput \<Rightarrow> JsObject list" where
  "returnedEntries response =
     orEmpty (respVersions response) @ orEmpty (DeleteMarkers response)"

definition relativeKey :: "string \<Rightarrow> JsObject \<Rightarrow> string" where
  "relativeKey p r = drop (length p) (Key r)"

definition visibleKey :: "string \<Rightarrow> bool" where
  "visibleKey k = (k \<noteq> [] \<and> \<not> sublist ''.file_placeholder'' k)"

definition dateOf :: "Env \<Rightarrow> JsObject \<Rightarrow> Date" where
  "dateOf env r = (case LastModified r of None \<Rightarrow> now env | Some d \<Rightarrow> d)"

definition keyGroup :: "string \<Rightarrow> string \<Rightarrow> JsObject list \<Rightarrow> JsObject list" where
  "keyGroup p k rs = filter (\<lambda>r. relativeKey p r = k) rs"

definition mostRecentFirst :: "Env \<Rightarrow> JsObject list \<Rightarrow> JsObject list" where
  "mostRecentFirst env rs = sort_key (\<lambda>r. - getTime (dateOf env r)) rs"

definition wellShaped :: "ListObjectVersionsOutput \<Rightarrow> bool" where
  "wellShaped response =
     (list_all (\<lambda>r. Size r \<noteq> None) (orEmpty (respVersions response)) \<and>
      list_all (\<lambda>r. Size r = None) (orEmpty (DeleteMarkers response)))"

section \<open>Refreshing the listing for the current mode\<close>

text \<open>
  The answers of the backend to the requests an action makes. A delete answers by the key
  and version it names; a delimited listing of a prefix answers with its entries and, for
  each common prefix, the listing that prefix will answer with in turn.
\<close>

datatype Listing =
    ListFails error
  | Listed "JsObject list" "(CommonPrefix \<times> Listing) list"

record Backend =
  deleteAnswer :: "string \<Rightarrow> string option \<Rightarrow> error option"
  objectsAnswer :: "string \<Rightarrow> Listing"
  versionsTreeAnswer :: "string \<Rightarrow> Listing"
  versionsAnswer :: "string \<Rightarrow> error + ListObjectVersionsOutput"
  customAnswer :: "error + ListObjectsV2Output"
  pagerAnswer :: "(error + ListObjectsV2Output) list"

text \<open>The three-way branch that \<open>enqueueUpload\<close>, \<open>deleteObject\<close> and \<open>deleteFolder\<close>
  each spell out after their change.\<close>

definition refreshListing :: "Env \<Rightarrow> Backend \<Rightarrow> FilesState \<Rightarrow> Run" where
  "refreshListing env be st =
     (if showObjectVersions st then
        (let st1 = clearTokens st
         in listAllVersions env (statePath st1) 1 True (versionsAnswer be (statePath st1)) st1)
      else if isAltPagination env st then
        (let st1 = clearTokens st
         in listCustom env (statePath st1) 1 True (customAnswer be) st1)
      else initList env (statePath st) (pagerAnswer be) st)"

section \<open>Upload pipeline\<close>

text \<open>\<open>String.prototype.split\<close> and \<open>Array.prototype.join\<close> for a one-character
  separator.\<close>

fun splitOn :: "char \<Rightarrow> string \<Rightarrow> string list" where
  "splitOn c [] = [[]]"
| "splitOn c (x # xs) =
     (if x = c then [] # splitOn c xs
      else (case splitOn c xs of [] \<Rightarrow> [[x]] | h # t \<Rightarrow> (x # h) # t))"

fun joinWith :: "char \<Rightarrow> string list \<Rightarrow> string" where
  "joinWith c [] = []"
| "joinWith c [s] = s"
| "joinWith c (s # t # ts) = s @ c # joinWith c (t # ts)"

text \<open>
  The first loop of \<open>upload\<close>, over the pairs the generator \<open>traverse\<close> yields. The result
  is \<open>files\<close>, \<open>duplicateFiles\<close>, \<open>traversedCount\<close>, and the number of pairs the loop pulled
  from the generator.
\<close>

fun collectFiles ::
    "string list \<Rightarrow> bool \<Rightarrow> (string \<times> File) list \<Rightarrow> (string \<times> File) list \<Rightarrow> string list \<Rightarrow>
     nat \<Rightarrow> nat \<Rightarrow> (string \<times> File) list \<times> string list \<times> nat \<times> nat" where
  "collectFiles fileNames ignoreDuplicate [] fs duplicateFiles traversedCount pulled =
     (fs, duplicateFiles, traversedCount, pulled)"
| "collectFiles fileNames ignoreDuplicate ((p, file) # rest) fs duplicateFiles
       traversedCount pulled =
     (let directories = splitOn CHR ''/'' p;
          name = p @ fileName file;
          hasDuplicate =
            ((case directories of [] \<Rightarrow> False | d # ds \<Rightarrow> d \<in> set fileNames) \<or>
             name \<in> set fileNames)
      in if \<not> ignoreDuplicate \<and> length duplicateFiles < 5 \<and> hasDuplicate then
           (let duplicateFiles1 = duplicateFiles @ [name] in
            if length duplicateFiles1 = 5 \<or> traversedCount = 100
            then (fs, duplicateFiles1, traversedCount, Suc pulled)
            else collectFiles fileNames ignoreDuplicate rest (fs @ [(p, file)])
                   duplicateFiles1 (Suc traversedCount) (Suc pulled))
         else collectFiles fileNames ignoreDuplicate rest (fs @ [(p, file)])
                duplicateFiles (Suc traversedCount) (Suc pulled))"

fun removeFirst :: "('a \<Rightarrow> bool) \<Rightarrow> 'a list \<Rightarrow> 'a list" where
  "removeFirst P [] = []"
| "removeFirst P (x # xs) = (if P x then xs else x # removeFirst P xs)"

fun updateFirst :: "('a \<Rightarrow> bool) \<Rightarrow> ('a \<Rightarrow> 'a) \<Rightarrow> 'a list \<Rightarrow> 'a list" where
  "updateFirst P g [] = []"
| "updateFirst P g (x # xs) = (if P x then g x # xs else x # updateFirst P g xs)"

definition MAX_UPLOAD_SIZE :: int where
  "MAX_UPLOAD_SIZE = 30 * 1024 * 1024 * 1024"

definition uploadingObject ::
    "Env \<Rightarrow> string \<Rightarrow> string \<Rightarrow> File \<Rightarrow> bool \<Rightarrow> UploadingStatus \<Rightarrow>
     FailedUploadMessage option \<Rightarrow> UploadingBrowserObject" where
  "uploadingObject env bkt key body hasUpload stat msg =
     \<lparr>Key = key, VersionId = None, Size = Some 0, LastModified = Some (now env),
      IsLatest = None, otype = Some TFile, isDeleteMarker = None, isLatest = None,
      progress = Some 0, uploadHandle = hasUpload, path = None, Versions = None,
      status = stat, Bucket = bkt, Body = body, failedMessage = msg\<rparr>"

text \<open>
  \<open>enqueueUpload\<close> up to the hand-over to the chain: \<open>NewUpload\<close> is the construction of
  the multipart \<open>Upload\<close> for the transport, and the key appended to \<open>uploadChain\<close> is the
  completion step chained with \<open>then\<close>.
\<close>

definition enqueueUpload :: "Env \<Rightarrow> string \<Rightarrow> File \<Rightarrow> FilesState \<Rightarrow> Run" where
  "enqueueUpload env key body st =
     (if \<not> isInitialized st then throws UninitializedError st []
      else if list_ex (\<lambda>f. Key f = key \<and> status f = InProgress) (uploading st)
      then returns st [NotifyError (key @ '' is already uploading'')]
      else
        (let st1 = st\<lparr>uploading := removeFirst (\<lambda>f. Key f = key) (uploading st)\<rparr>
         in if fileSize body > MAX_UPLOAD_SIZE
            then returns
                   (st1\<lparr>uploading := uploading st1 @
                          [uploadingObject env (bucket st1) key body False Failed (Some TooBig)]\<rparr>)
                   [SetUploadingModal True]
            else returns
                   (st1\<lparr>uploading := uploading st1 @
                          [uploadingObject env (bucket st1) key body True InProgress None],
                        uploadChain := uploadChain st1 @ [key]\<rparr>)
                   [SetUploadingModal True, NewUpload key]))"

fun enqueueAll :: "Env \<Rightarrow> (string \<times> File) list \<Rightarrow> FilesState \<Rightarrow> Run" where
  "enqueueAll env [] st = returns st []"
| "enqueueAll env ((p, file) # rest) st =
     andThen
       (enqueueUpload env
          (statePath st @ joinWith CHR ''/'' (splitOn CHR ''/'' p) @ fileName file) file st)
       (enqueueAll env rest)"

text \<open>\<open>upload\<close>, given the pairs \<open>traverse\<close> yields for the dropped or picked items.\<close>

definition upload :: "Env \<Rightarrow> (string \<times> File) list \<Rightarrow> bool \<Rightarrow> FilesState \<Rightarrow> Run" where
  "upload env traversed ignoreDuplicate st =
     (if \<not> isInitialized st then throws UninitializedError st []
      else (case collectFiles (map Key (files st)) ignoreDuplicate traversed [] [] 0 0 of
              (fs, duplicateFiles, traversedCount, pulled) \<Rightarrow>
                if length duplicateFiles > 0
                then throws (DuplicateUploadError duplicateFiles) st []
                else enqueueAll env fs st))"

text \<open>\<open>handleUploadError\<close> mutates the item it is given and may notify.\<close>

definition handleUploadError ::
    "UploadingBrowserObject \<Rightarrow> JsError \<Rightarrow> UploadingBrowserObject \<times> Call list" where
  "handleUploadError item err =
     (if errName err = ''AbortError'' \<and> status item = Cancelled then (item, [])
      else (item\<lparr>status := Failed, failedMessage := Some MsgFailed\<rparr>,
            [NotifyError (if sublist ''storage limit exceeded'' (errMessage err)
                          then ''Error: storage limit exceeded'' else errMessage err)]))"

text \<open>
  The completion step chained by \<open>enqueueUpload\<close>, when nothing else runs between its
  awaits: \<open>settled\<close> is how \<open>upload.done()\<close> settles.
\<close>

definition uploadStep :: "Env \<Rightarrow> Backend \<Rightarrow> string \<Rightarrow> JsError option \<Rightarrow> FilesState \<Rightarrow> Run" where
  "uploadStep env be key settled st =
     (let isItem = (\<lambda>f. Key f = key \<and> status f \<noteq> Cancelled) in
      case find isItem (uploading st) of
        None \<Rightarrow> returns st []
      | Some item \<Rightarrow>
          (case settled of
             Some err \<Rightarrow>
               returns (st\<lparr>uploading :=
                            updateFirst isItem (\<lambda>f. fst (handleUploadError f err)) (uploading st)\<rparr>)
                 (snd (handleUploadError item err))
           | None \<Rightarrow>
               andThen
                 (refreshListing env be
                    (st\<lparr>uploading :=
                          updateFirst isItem (\<lambda>f. f\<lparr>status := Finished\<rparr>) (uploading st)\<rparr>))
                 (\<lambda>s. returns
                        (if length (filter (\<lambda>f. otype f = Some TFile) (files s)) = 1 \<and>
                            CHR ''/'' \<notin> set key \<and> openModalOnFirstUpload s
                         then s\<lparr>objectPathForModal := key\<rparr> else s) [])))"

definition cancelUpload :: "string \<Rightarrow> FilesState \<Rightarrow> Run" where
  "cancelUpload key st =
     (case find (\<lambda>f. Key f = key) (uploading st) of
        None \<Rightarrow> throws (FileNotFoundError key) st []
      | Some file \<Rightarrow>
          returns (st\<lparr>uploading :=
                       updateFirst (\<lambda>f. Key f = key) (\<lambda>f. f\<lparr>status := Cancelled\<rparr>) (uploading st)\<rparr>)
            (if uploadHandle file then [UploadAbort key] else []))"

section \<open>Deletion engine\<close>

definition compositeKey :: "'a JsObject_scheme \<Rightarrow> string" where
  "compositeKey file = orBlank (path file) @ Key file @ orBlank (VersionId file)"

definition addFileToBeDeleted :: "'a JsObject_scheme list \<Rightarrow> FilesState \<Rightarrow> FilesState" where
  "addFileToBeDeleted fs st =
     st\<lparr>filesToBeDeleted := foldl (\<lambda>s f. insert (compositeKey f) s) (filesToBeDeleted st) fs\<rparr>"

definition removeFile :: "'a JsObject_scheme \<Rightarrow> FilesState \<Rightarrow> FilesState" where
  "removeFile file st =
     st\<lparr>filesToBeDeleted := filesToBeDeleted st - {compositeKey file},
        files := filter (\<lambda>singleFile. \<not> (Key singleFile = Key file \<and> path singleFile = path file))
                   (files st)\<rparr>"

definition deleteObject ::
    "Env \<Rightarrow> Backend \<Rightarrow> string \<Rightarrow> 'a JsObject_scheme option \<Rightarrow> bool \<Rightarrow> bool \<Rightarrow>
     FilesState \<Rightarrow> Run" where
  "deleteObject env be p fileOpt isFolder shouldRefresh st =
     (case fileOpt of
        None \<Rightarrow> returns st []
      | Some file \<Rightarrow>
          if \<not> isInitialized st then throws UninitializedError st []
          else
            (let st1 = (if \<not> isFolder then addFileToBeDeleted [file] st else st);
                 sent = [Send (DeleteObjectCommand (p @ Key file) (VersionId file))]
             in case deleteAnswer be (p @ Key file) (VersionId file) of
                  Some e \<Rightarrow> throws e st1 sent
                | None \<Rightarrow>
                    (let st2 = st1\<lparr>uploading :=
                                    filter (\<lambda>f. Key f \<noteq> p @ Key file) (uploading st1)\<rparr>
                     in if \<not> isFolder then
                          andThen
                            (andThen (returns st2 sent)
                               (\<lambda>s. if shouldRefresh then refreshListing env be s
                                    else returns s []))
                            (\<lambda>s. returns (removeFile file s) [])
                        else returns st2 sent)))"

fun firstError :: "error option list \<Rightarrow> error option" where
  "firstError [] = None"
| "firstError (None # rest) = firstError rest"
| "firstError (Some e # rest) = Some e"

text \<open>\<open>deleteObjectWithVersions\<close>: every delete is sent before \<open>Promise.all\<close> is awaited.\<close>

definition deleteObjectWithVersions ::
    "Env \<Rightarrow> Backend \<Rightarrow> string \<Rightarrow> 'a JsObject_scheme \<Rightarrow> FilesState \<Rightarrow> Run" where
  "deleteObjectWithVersions env be p file st =
     (if \<not> isInitialized st then throws UninitializedError st []
      else
        (let listed = [Send (ListObjectVersionsCommand (p @ Key file) None)] in
         case versionsAnswer be (p @ Key file) of
           Inl e \<Rightarrow> throws e st listed
         | Inr response \<Rightarrow>
             (let all = orEmpty (respVersions response) @ orEmpty (DeleteMarkers response);
                  sent = listed @
                         map (\<lambda>v. Send (DeleteObjectCommand (p @ Key file) (VersionId v))) all
              in case firstError (map (\<lambda>v. deleteAnswer be (p @ Key file) (VersionId v)) all) of
                   Some e \<Rightarrow> throws e st sent
                 | None \<Rightarrow>
                     returns
                       (removeFile file
                          (st\<lparr>uploading :=
                                filter (\<lambda>f. Key f \<noteq> p @ Key file) (uploading st)\<rparr>))
                       sent)))"

text \<open>
  The three \<open>thread()\<close> workers of one directory level, draining the shared array with
  \<open>pop\<close> (the head of \<open>stack\<close> is popped next). A worker ends at its first failed delete;
  the others go on, so entries are popped as long as a worker lives. The run is the level
  once every worker has ended; its error is the first failure.
\<close>

fun deletePool ::
    "Env \<Rightarrow> Backend \<Rightarrow> bool \<Rightarrow> nat \<Rightarrow> JsObject list \<Rightarrow> FilesState \<Rightarrow> Run" where
  "deletePool env be shouldRefresh 0 stack st = returns st []"
| "deletePool env be shouldRefresh (Suc w) [] st = returns st []"
| "deletePool env be shouldRefresh (Suc w) (file # rest) st =
     (let r = deleteObject env be [] (Some file) True shouldRefresh st;
          r' = deletePool env be shouldRefresh (if thrown r = None then Suc w else w) rest
                 (final r)
      in \<lparr>thrown = (case thrown r of Some e \<Rightarrow> Some e | None \<Rightarrow> thrown r'),
          final = final r', trace = trace r @ trace r'\<rparr>)"

fun recurse ::
    "Env \<Rightarrow> Backend \<Rightarrow> bool \<Rightarrow> bool \<Rightarrow> string \<Rightarrow> Listing \<Rightarrow> FilesState \<Rightarrow> Run" where
  "recurse env be withVersions shouldRefresh filePath (ListFails e) st =
     throws e st
       [Send (if withVersions then ListObjectVersionsCommand filePath None
              else ListObjectsCommand filePath)]"
| "recurse env be withVersions shouldRefresh filePath (Listed contents subs) st =
     andThen
       (andThen
          (returns st
             [Send (if withVersions then ListObjectVersionsCommand filePath None
                    else ListObjectsCommand filePath)])
          (deletePool env be shouldRefresh 3 (rev contents)))
       (\<lambda>s. foldl
              (\<lambda>r sub. andThen r
                 (recurse env be withVersions shouldRefresh (orBlank (Prefix (fst sub)))
                    (snd sub)))
              (returns s []) subs)"

definition folderPrefix :: "string \<Rightarrow> 'a JsObject_scheme \<Rightarrow> string" where
  "folderPrefix p file = (if length p > 0 then p @ Key file else Key file @ ''/'')"

definition deleteFolder ::
    "Env \<Rightarrow> Backend \<Rightarrow> 'a JsObject_scheme \<Rightarrow> string \<Rightarrow> bool \<Rightarrow> FilesState \<Rightarrow> Run" where
  "deleteFolder env be file p shouldRefresh st =
     (if \<not> isInitialized st then throws UninitializedError st []
      else
        andThen
          (andThen
             (recurse env be False shouldRefresh (folderPrefix p file)
                (objectsAnswer be (folderPrefix p file)) (addFileToBeDeleted [file] st))
             (\<lambda>s. returns (removeFile file s) []))
          (\<lambda>s. if shouldRefresh then refreshListing env be s else returns s []))"

definition deleteFolderWithVersions ::
    "Env \<Rightarrow> Backend \<Rightarrow> 'a JsObject_scheme \<Rightarrow> string \<Rightarrow> FilesState \<Rightarrow> Run" where
  "deleteFolderWithVersions env be file p st =
     (if \<not> isInitialized st then throws UninitializedError st []
      else
        andThen
          (recurse env be True False (folderPrefix p file)
             (versionsTreeAnswer be (folderPrefix p file)) (addFileToBeDeleted [file] st))
          (\<lambda>s. returns (removeFile file s) []))"

text \<open>
  \<open>deleteSelected\<close> starts one task per selected entry and awaits them together. The tasks
  are run here one after the other, each to its end whatever the others do; the error is
  the first failure.
\<close>

fun runAll :: "(FilesState \<Rightarrow> Run) list \<Rightarrow> FilesState \<Rightarrow> Run" where
  "runAll [] st = returns st []"
| "runAll (t # ts) st =
     (let r = t st; r' = runAll ts (final r)
      in \<lparr>thrown = (case thrown r of Some e \<Rightarrow> Some e | None \<Rightarrow> thrown r'),
          final = final r', trace = trace r @ trace r'\<rparr>)"

definition deleteTask :: "Env \<Rightarrow> Backend \<Rightarrow> bool \<Rightarrow> string \<Rightarrow> BrowserObject \<Rightarrow> FilesState \<Rightarrow> Run" where
  "deleteTask env be withVersions p file =
     (if otype file = Some TFile then
        (if withVersions then deleteObjectWithVersions env be p file
         else deleteObject env be p (Some file) False False)
      else
        (if withVersions then deleteFolderWithVersions env be file p
         else deleteFolder env be file p False))"

definition deleteSelected :: "Env \<Rightarrow> Backend \<Rightarrow> bool \<Rightarrow> FilesState \<Rightarrow> Run" where
  "deleteSelected env be withVersions st =
     (let st1 = addFileToBeDeleted (selectedFiles st) st
      in runAll (map (deleteTask env be withVersions (statePath st1)) (selectedFiles st1)) st1)"

section \<open>Reachable states\<close>

inductive reachable :: "Env \<Rightarrow> FilesState \<Rightarrow> bool" for env :: Env where
  r_initial: "reachable env (initialState env)"
| r_init: "reachable env st \<Longrightarrow> reachable env (init a k b e r m st)"
| r_reinit: "reachable env st \<Longrightarrow> reachable env (reinit a k e st)"
| r_clear: "reachable env st \<Longrightarrow> reachable env (clear env st)"
| r_clearUploading: "reachable env st \<Longrightarrow> reachable env (clearUploading st)"
| r_clearTokens: "reachable env st \<Longrightarrow> reachable env (clearTokens st)"
| r_setCursor: "reachable env st \<Longrightarrow> reachable env (setCursor c st)"
| r_updateSelectedFiles: "reachable env st \<Longrightarrow> reachable env (updateSelectedFiles fs st)"
| r_toggle: "reachable env st \<Longrightarrow> reachable env (toggleShowObjectVersions st)"
| r_initList: "reachable env st \<Longrightarrow> reachable env (final (initList env p pages st))"
| r_listByToken: "reachable env st \<Longrightarrow> reachable env (final (listByToken env p n tok out st))"
| r_listCustom: "reachable env st \<Longrightarrow> reachable env (final (listCustom env p pg sv out st))"
| r_listAllVersions:
    "reachable env st \<Longrightarrow> reachable env (final (listAllVersions env p pg sv vout st))"
| r_upload: "reachable env st \<Longrightarrow> reachable env (final (upload env traversed ign st))"
| r_enqueueUpload: "reachable env st \<Longrightarrow> reachable env (final (enqueueUpload env key body st))"
| r_uploadStep: "reachable env st \<Longrightarrow> reachable env (final (uploadStep env be key settled st))"
| r_cancelUpload: "reachable env st \<Longrightarrow> reachable env (final (cancelUpload key st))"
| r_deleteObject:
    "reachable env st \<Longrightarrow>
     reachable env (final (deleteObject env be p (fo :: BrowserObject option) isf sr st))"
| r_deleteObjectWithVersions:
    "reachable env st \<Longrightarrow>
     reachable env (final (deleteObjectWithVersions env be p (file :: BrowserObject) st))"
| r_deleteFolder:
    "reachable env st \<Longrightarrow>
     reachable env (final (deleteFolder env be (file :: BrowserObject) p sr st))"
| r_deleteFolderWithVersions:
    "reachable env st \<Longrightarrow>
     reachable env (final (deleteFolderWithVersions env be (file :: BrowserObject) p st))"
| r_deleteSelected: "reachable env st \<Longrightarrow> reachable env (final (deleteSelected env be wv st))"

section \<open>The upload chain\<close>

text \<open>
  \<open>state.uploadChain\<close> is a promise. \<open>enqueueUpload\<close> replaces it by
  \<open>state.uploadChain.then(step)\<close>: the step starts once the promise it was chained on is
  fulfilled, never if that promise is rejected, and the new promise settles when the step
  has run to its end (rejected if the step threw, as it does when the refresh fails).
  \<open>clear\<close> replaces it by \<open>Promise.resolve()\<close>. Promises are numbered in the order of
  their creation. A step is \<open>Running\<close> from the moment it looks up its entry until it
  returns: all that time it awaits \<open>upload.done()\<close>, the transfer of its upload, and then
  the refresh of the listing. \<open>upload.done()\<close> is called nowhere else.
\<close>

datatype PromiseState = Pending | Fulfilled | Rejected

datatype StepState = Waiting | Running | Ended | Skipped

record ChainLink =
  stepKey :: string
  chainedOn :: nat
  derived :: nat
  stepState :: StepState

record ChainState =
  promises :: "PromiseState list"
  chainPromise :: nat
  links :: "ChainLink list"

datatype ChainEvent =
    Enqueue string
  | ClearStore
  | Begin nat
  | Finish nat bool
  | Skip nat

definition chainInitial :: ChainState where
  "chainInitial = \<lparr>promises = [Fulfilled], chainPromise = 0, links = []\<rparr>"

fun chainStep :: "ChainEvent \<Rightarrow> ChainState \<Rightarrow> ChainState option" where
  "chainStep (Enqueue key) s =
     Some (s\<lparr>promises := promises s @ [Pending],
             chainPromise := length (promises s),
             links := links s @ [\<lparr>stepKey = key, chainedOn = chainPromise s,
                                  derived = length (promises s), stepState = Waiting\<rparr>]\<rparr>)"
| "chainStep ClearStore s =
     Some (s\<lparr>promises := promises s @ [Fulfilled], chainPromise := length (promises s)\<rparr>)"
| "chainStep (Begin i) s =
     (if i < length (links s) \<and> stepState (links s ! i) = Waiting \<and>
         chainedOn (links s ! i) < length (promises s) \<and>
         promises s ! chainedOn (links s ! i) = Fulfilled
      then Some (s\<lparr>links := (links s)[i := (links s ! i)\<lparr>stepState := Running\<rparr>]\<rparr>)
      else None)"
| "chainStep (Finish i ok) s =
     (if i < length (links s) \<and> stepState (links s ! i) = Running
      then Some (s\<lparr>links := (links s)[i := (links s ! i)\<lparr>stepState := Ended\<rparr>],
                   promises := (promises s)[derived (links s ! i) :=
                                              (if ok then Fulfilled else Rejected)]\<rparr>)
      else None)"
| "chainStep (Skip i) s =
     (if i < length (links s) \<and> stepState (links s ! i) = Waiting \<and>
         chainedOn (links s ! i) < length (promises s) \<and>
         promises s ! chainedOn (links s ! i) = Rejected
      then Some (s\<lparr>links := (links s)[i := (links s ! i)\<lparr>stepState := Skipped\<rparr>],
                   promises := (promises s)[derived (links s ! i) := Rejected]\<rparr>)
      else None)"

fun chainRun :: "ChainEvent list \<Rightarrow> ChainState \<Rightarrow> ChainState option" where
  "chainRun [] s = Some s"
| "chainRun (e # es) s = (case chainStep e s of None \<Rightarrow> None | Some s' \<Rightarrow> chainRun es s')"

definition begun :: "ChainLink \<Rightarrow> bool" where
  "begun l = (stepState l = Running \<or> stepState l = Ended)"

text \<open>
  What holds of the chain whatever happened: a link is chained on a promise older than
  the one it settles, no two links settle the same promise, a promise a link settles is
  fulfilled only when the step of the link has ended, and a step has begun only if the
  promise it is chained on is fulfilled.
\<close>

definition chainOk :: "ChainState \<Rightarrow> bool" where
  "chainOk s =
     (chainPromise s < length (promises s) \<and>
      (\<forall>k<length (links s). chainedOn (links s ! k) < derived (links s ! k) \<and>
                             derived (links s ! k) < length (promises s)) \<and>
      (\<forall>k<length (links s). \<forall>k'<length (links s).
          derived (links s ! k) = derived (links s ! k') \<longrightarrow> k = k') \<and>
      (\<forall>k<length (links s). promises s ! derived (links s ! k) = Fulfilled \<longrightarrow>
                             stepState (links s ! k) = Ended) \<and>
      (\<forall>k<length (links s). begun (links s ! k) \<longrightarrow>
                             promises s ! chainedOn (links s ! k) = Fulfilled))"

text \<open>
  The links from \<open>n\<close> up to \<open>m\<close> are chained one on the other; and, for the links
  enqueued since link \<open>n\<close> with no \<open>clear\<close>, \<open>uploadChain\<close> is the promise of the last of
  them.
\<close>

definition chainedInOrder :: "nat \<Rightarrow> nat \<Rightarrow> ChainState \<Rightarrow> bool" where
  "chainedInOrder n m s =
     (m \<le> length (links s) \<and>
      (\<forall>k. n \<le> k \<and> Suc k < m \<longrightarrow> chainedOn (links s ! Suc k) = derived (links s ! k)))"

definition chainTail :: "nat \<Rightarrow> ChainState \<Rightarrow> bool" where
  "chainTail n s =
     (chainedInOrder n (length (links s)) s \<and>
      (n < length (links s) \<longrightarrow>
         chainPromise s = derived (links s ! (length (links s) - 1))))"

section \<open>Invariants of the queues\<close>

text \<open>Every entry of \<open>uploading\<close> is a file; and the two queues a listing leaves alone.\<close>

definition uploadsAreFiles :: "FilesState \<Rightarrow> bool" where
  "uploadsAreFiles st = list_all (\<lambda>f. otype f = Some TFile) (uploading st)"

definition sameQueues :: "FilesState \<Rightarrow> FilesState \<Rightarrow> bool" where
  "sameQueues st st' =
     (uploading st' = uploading st \<and> filesToBeDeleted st' = filesToBeDeleted st)"


section \<open>Concrete inputs\<close>

text \<open>An environment whose engine sorts by insertion, a store initialised on a bucket,
  and a few files and states for the examples below.\<close>

definition env0 :: Env where
  "env0 = \<lparr>now = \<lparr>dateRef = 0, getTime = 0\<rparr>, DEFAULT_PAGE_LIMIT = 10,
     altObjBrowserPagingEnabled = False, altObjBrowserPagingThreshold = 0,
     storedObjectCount = None, arraySort = insertionSort\<rparr>"

definition st0 :: FilesState where
  "st0 = init ''ak'' ''sk'' ''bucket'' ''gateway'' ''/'' True (initialState env0)"

definition smallFile :: File where
  "smallFile = \<lparr>fileName = ''a.txt'', fileSize = 5\<rparr>"

definition hugeFile :: File where
  "hugeFile = \<lparr>fileName = ''a.txt'', fileSize = 32212254721\<rparr>"

definition limitFile :: File where
  "limitFile = \<lparr>fileName = ''b.txt'', fileSize = 32212254720\<rparr>"

definition stUploading :: FilesState where
  "stUploading = final (enqueueUpload env0 ''a.txt'' smallFile st0)"

definition abortError :: JsError where
  "abortError = \<lparr>errName = ''AbortError'', errMessage = ''Upload aborted.''\<rparr>"

definition listedDup :: FilesState where
  "listedDup = st0\<lparr>files := [asBrowserObject \<lparr>Key = ''dup'', VersionId = None, Size = Some 1,
      LastModified = Some \<lparr>dateRef = 1, getTime = 1\<rparr>, IsLatest = None, otype = Some TFile,
      isDeleteMarker = None, isLatest = None, progress = None, uploadHandle = False,
      path = Some []\<rparr>]\<rparr>"


definition storedObject :: "string \<Rightarrow> int \<Rightarrow> nat \<Rightarrow> int \<Rightarrow> JsObject" where
  "storedObject k sz r t =
     \<lparr>Key = k, VersionId = None, Size = Some sz,
      LastModified = Some \<lparr>dateRef = r, getTime = t\<rparr>, IsLatest = None, otype = None,
      isDeleteMarker = None, isLatest = None, progress = None, uploadHandle = False,
      path = None\<rparr>"

text \<open>The bucket of scenario A: the keys \<open>a/\<close>, \<open>a/x.txt\<close> and \<open>b.txt\<close>.\<close>

definition bucketA :: "JsObject list" where
  "bucketA = [storedObject ''a/'' 0 1 100, storedObject ''a/x.txt'' 7 2 200,
              storedObject ''b.txt'' 9 3 300]"

definition networkError :: error where
  "networkError = TransportError \<lparr>errName = ''NetworkError'', errMessage = ''fetch failed''\<rparr>"

text \<open>A first page of the root of that bucket that announces a second page.\<close>

definition truncatedRoot :: ListObjectsV2Output where
  "truncatedRoot = (delimitedListing bucketA [])\<lparr>NextContinuationToken := Some ''t1''\<rparr>"

text \<open>Scenario B: three versions of \<open>doc.txt\<close> and a delete marker newer than all of
  them. \<open>docRow\<close> is the object the listing makes of each.\<close>

definition docVersion :: "string \<Rightarrow> nat \<Rightarrow> int \<Rightarrow> JsObject" where
  "docVersion vid r t =
     \<lparr>Key = ''doc.txt'', VersionId = Some vid, Size = Some 10,
      LastModified = Some \<lparr>dateRef = r, getTime = t\<rparr>, IsLatest = Some False, otype = None,
      isDeleteMarker = None, isLatest = None, progress = None, uploadHandle = False,
      path = None\<rparr>"

definition docMarker :: JsObject where
  "docMarker =
     \<lparr>Key = ''doc.txt'', VersionId = Some ''v4'', Size = None,
      LastModified = Some \<lparr>dateRef = 4, getTime = 400\<rparr>, IsLatest = Some True, otype = None,
      isDeleteMarker = None, isLatest = None, progress = None, uploadHandle = False,
      path = None\<rparr>"

definition scenarioB :: ListObjectVersionsOutput where
  "scenarioB =
     \<lparr>respVersions = Some [docVersion ''v3'' 3 300, docVersion ''v2'' 2 200,
                           docVersion ''v1'' 5 100],
      DeleteMarkers = Some [docMarker], versCommonPrefixes = None, NextKeyMarker = None,
      NextVersionIdMarker = None, IsTruncated = Some False\<rparr>"

definition docRow :: "string \<Rightarrow> nat \<Rightarrow> int \<Rightarrow> bool \<Rightarrow> JsObject" where
  "docRow vid r t marker =
     \<lparr>Key = ''doc.txt'', VersionId = Some vid, Size = Some (if marker then 0 else 10),
      LastModified = Some \<lparr>dateRef = r, getTime = t\<rparr>, IsLatest = None, otype = Some TFile,
      isDeleteMarker = Some marker, isLatest = Some False, progress = None,
      uploadHandle = False, path = Some []\<rparr>"

text \<open>Two listed objects with the same modification time, each with a \<open>Date\<close> of its
  own.\<close>

definition tieA :: JsObject where
  "tieA = storedObject ''a.txt'' 1 11 1000"

definition tieB :: JsObject where
  "tieB = storedObject ''b.txt'' 1 12 1000"

text \<open>States of the chain: after a \<open>clear\<close>; after two uploads were then enqueued; after
  the first of their steps ran to its end and the second began; and after the store was
  cleared while the first step was running.\<close>

definition chainCleared :: ChainState where
  "chainCleared = \<lparr>promises = [Fulfilled, Fulfilled], chainPromise = 1, links = []\<rparr>"

definition chainTwoEnqueued :: ChainState where
  "chainTwoEnqueued =
     \<lparr>promises = [Fulfilled, Fulfilled, Pending, Pending], chainPromise = 3,
      links = [\<lparr>stepKey = ''a'', chainedOn = 1, derived = 2, stepState = Waiting\<rparr>,
               \<lparr>stepKey = ''b'', chainedOn = 2, derived = 3, stepState = Waiting\<rparr>]\<rparr>"

definition chainAfterTwo :: ChainState where
  "chainAfterTwo =
     \<lparr>promises = [Fulfilled, Fulfilled, Fulfilled, Pending], chainPromise = 3,
      links = [\<lparr>stepKey = ''a'', chainedOn = 1, derived = 2, stepState = Ended\<rparr>,
               \<lparr>stepKey = ''b'', chainedOn = 2, derived = 3, stepState = Running\<rparr>]\<rparr>"

definition chainAfterClear :: ChainState where
  "chainAfterClear =
     \<lparr>promises = [Fulfilled, Pending, Fulfilled, Pending], chainPromise = 3,
      links = [\<lparr>stepKey = ''a'', chainedOn = 0, derived = 1, stepState = Running\<rparr>,
               \<lparr>stepKey = ''b'', chainedOn = 2, derived = 3, stepState = Running\<rparr>]\<rparr>"

text \<open>The root of the bucket of scenario A as listed, its folder \<open>a\<close>, a backend whose
  requests all fail, and one that lists the two keys under \<open>a/\<close> and deletes them.\<close>

definition folderA :: BrowserObject where
  "folderA = prefixToFolder env0 [] \<lparr>Prefix = Some ''a/''\<rparr>"

definition listedRoot :: FilesState where
  "listedRoot = final (initList env0 [] [Inr (delimitedListing bucketA [])] st0)"

definition failingBackend :: Backend where
  "failingBackend =
     \<lparr>deleteAnswer = (\<lambda>k v. None),
      objectsAnswer = (\<lambda>p. ListFails networkError),
      versionsTreeAnswer = (\<lambda>p. ListFails networkError),
      versionsAnswer = (\<lambda>p. Inl networkError),
      customAnswer = Inl networkError,
      pagerAnswer = [Inl networkError]\<rparr>"

definition workingBackend :: Backend where
  "workingBackend =
     \<lparr>deleteAnswer = (\<lambda>k v. None),
      objectsAnswer = (\<lambda>p. Listed [storedObject ''a/'' 0 1 100,
                                     storedObject ''a/x.txt'' 7 2 200] []),
      versionsTreeAnswer = (\<lambda>p. ListFails networkError),
      versionsAnswer = (\<lambda>p. Inl networkError),
      customAnswer = Inl networkError,
      pagerAnswer = [Inr (delimitedListing [storedObject ''b.txt'' 9 3 300] [])]\<rparr>"

text \<open>An upload of \<open>a.txt\<close> enqueued behind a running upload of \<open>b.txt\<close>; that upload
  cancelled and \<open>a.txt\<close> enqueued again; and the transfer of \<open>b.txt\<close> failed, its step
  ended.\<close>

definition transferError :: JsError where
  "transferError = \<lparr>errName = ''NetworkError'', errMessage = ''fetch failed''\<rparr>"

definition stBehind :: FilesState where
  "stBehind = final (enqueueUpload env0 ''a.txt'' smallFile
                (final (enqueueUpload env0 ''b.txt'' limitFile st0)))"

definition stReenqueued :: FilesState where
  "stReenqueued = final (enqueueUpload env0 ''a.txt'' smallFile
                    (final (cancelUpload ''a.txt'' stBehind)))"

definition stFirstEnded :: FilesState where
  "stFirstEnded = final (uploadStep env0 failingBackend ''b.txt'' (Some transferError) stReenqueued)"

section \<open>Facts about the concrete inputs\<close>

lemma st0_initialized: "isInitialized st0"
  by (simp add: st0_def init_def isInitialized_def)

lemma uploading_stUploading:
  "uploading stUploading = [uploadingObject env0 ''bucket'' ''a.txt'' smallFile True InProgress None]"
  by (simp add: stUploading_def enqueueUpload_def st0_def init_def initialState_def
      isInitialized_def returns_def MAX_UPLOAD_SIZE_def smallFile_def)

lemma stUploading_initialized: "isInitialized stUploading"
  by (simp add: stUploading_def enqueueUpload_def st0_def init_def initialState_def
      isInitialized_def returns_def MAX_UPLOAD_SIZE_def smallFile_def)

section \<open>Deleting nothing\<close>

text \<open>
  C10. \<open>deleteObject\<close> called with no file returns at once: it throws nothing, the state
  it leaves is the state it was given, field for field, and it makes no call at all,
  whether or not the client is initialised.
\<close>

theorem deleteObject_undefined_noop:
  "deleteObject env be p None isFolder shouldRefresh st =
     \<lparr>thrown = None, final = st, trace = []\<rparr>"
  by (simp add: deleteObject_def returns_def)

section \<open>The size ceiling of an upload\<close>

text \<open>
  An oversize file whose key is already uploading is turned away by the guard that comes
  first: nothing is recorded for it, and no entry is \<open>Failed\<close>.
\<close>

theorem enqueueUpload_oversize_counterexample:
  "fileSize hugeFile > 30 * 1024 * 1024 * 1024 \<and>
   thrown (enqueueUpload env0 ''a.txt'' hugeFile stUploading) = None \<and>
   uploading (final (enqueueUpload env0 ''a.txt'' hugeFile stUploading)) =
     uploading stUploading \<and>
   \<not> list_ex (\<lambda>f. status f = Failed)
       (uploading (final (enqueueUpload env0 ''a.txt'' hugeFile stUploading)))"
  by (simp add: stUploading_def enqueueUpload_def st0_def init_def initialState_def
      isInitialized_def returns_def MAX_UPLOAD_SIZE_def smallFile_def hugeFile_def
      uploadingObject_def)

text \<open>
  C5, amended. A file of more than 30 GiB never has an \<open>Upload\<close> built for it and never
  gets a completion step chained. When the client is initialised and no upload of the
  key is in progress, the file is recorded: over 30 GiB as the last entry of
  \<open>uploading\<close>, \<open>Failed\<close> with \<open>TooBig\<close>; at 30 GiB or less as an entry in progress, with
  its \<open>Upload\<close> built and its completion step chained.
\<close>

theorem enqueueUpload_size_ceiling:
  "(fileSize body > 30 * 1024 * 1024 * 1024 \<longrightarrow>
      (\<forall>k. NewUpload k \<notin> set (trace (enqueueUpload env key body st))) \<and>
      uploadChain (final (enqueueUpload env key body st)) = uploadChain st) \<and>
   (isInitialized st \<and>
    \<not> list_ex (\<lambda>f. Key f = key \<and> status f = InProgress) (uploading st) \<longrightarrow>
      thrown (enqueueUpload env key body st) = None \<and>
      (fileSize body > 30 * 1024 * 1024 * 1024 \<longrightarrow>
         uploading (final (enqueueUpload env key body st)) =
           removeFirst (\<lambda>f. Key f = key) (uploading st) @
           [uploadingObject env (bucket st) key body False Failed (Some TooBig)]) \<and>
      (fileSize body \<le> 30 * 1024 * 1024 * 1024 \<longrightarrow>
         uploading (final (enqueueUpload env key body st)) =
           removeFirst (\<lambda>f. Key f = key) (uploading st) @
           [uploadingObject env (bucket st) key body True InProgress None] \<and>
         trace (enqueueUpload env key body st) = [SetUploadingModal True, NewUpload key] \<and>
         uploadChain (final (enqueueUpload env key body st)) = uploadChain st @ [key]))"
  by (simp add: enqueueUpload_def returns_def throws_def MAX_UPLOAD_SIZE_def Let_def)

theorem enqueueUpload_size_ceiling_witness:
  "fileSize hugeFile > 30 * 1024 * 1024 * 1024 \<and>
   fileSize limitFile \<le> 30 * 1024 * 1024 * 1024 \<and>
   isInitialized stUploading \<and>
   \<not> list_ex (\<lambda>f. Key f = ''b.txt'' \<and> status f = InProgress) (uploading stUploading) \<and>
   (\<forall>k. NewUpload k \<notin> set (trace (enqueueUpload env0 ''b.txt'' hugeFile stUploading))) \<and>
   uploading (final (enqueueUpload env0 ''b.txt'' hugeFile stUploading)) =
     uploading stUploading @
     [uploadingObject env0 ''bucket'' ''b.txt'' hugeFile False Failed (Some TooBig)] \<and>
   uploading (final (enqueueUpload env0 ''b.txt'' limitFile stUploading)) =
     uploading stUploading @
     [uploadingObject env0 ''bucket'' ''b.txt'' limitFile True InProgress None] \<and>
   trace (enqueueUpload env0 ''b.txt'' limitFile stUploading) =
     [SetUploadingModal True, NewUpload ''b.txt'']"
proof -
  have big: "fileSize hugeFile > 30 * 1024 * 1024 * 1024"
    by (simp add: hugeFile_def)
  have lim: "fileSize limitFile \<le> 30 * 1024 * 1024 * 1024"
    by (simp add: limitFile_def)
  have free: "\<not> list_ex (\<lambda>f. Key f = ''b.txt'' \<and> status f = InProgress) (uploading stUploading)"
    by (simp add: uploading_stUploading uploadingObject_def)
  have rem: "removeFirst (\<lambda>f. Key f = ''b.txt'') (uploading stUploading) = uploading stUploading"
    by (simp add: uploading_stUploading uploadingObject_def)
  have bkt: "bucket stUploading = ''bucket''"
    by (simp add: stUploading_def enqueueUpload_def st0_def init_def initialState_def
        isInitialized_def returns_def MAX_UPLOAD_SIZE_def smallFile_def)
  show ?thesis
    using enqueueUpload_size_ceiling [of hugeFile env0 "''b.txt''" stUploading]
      enqueueUpload_size_ceiling [of limitFile env0 "''b.txt''" stUploading]
      big lim free stUploading_initialized
    by (simp add: rem bkt)
qed

section \<open>Duplicate detection\<close>

lemma collectFiles_duplicates_bounded:
  "collectFiles names ign traversed fs dups tc pulled = (fs', dups', tc', pulled') \<Longrightarrow>
   length dups \<le> 5 \<Longrightarrow> length dups' \<le> 5"
proof (induction traversed arbitrary: fs dups tc pulled)
  case Nil
  then show ?case by simp
next
  case (Cons a traversed)
  obtain p f0 where a: "a = (p, f0)" by (cases a)
  show ?case
    using Cons.prems Cons.IH unfolding a
    by (auto simp: Let_def split: if_splits)
qed

lemma upload_duplicates_no_partial_upload:
  assumes "isInitialized st"
    and "collectFiles (map Key (files st)) ign traversed [] [] 0 0 = (fs, dups, tc, pulled)"
    and "dups \<noteq> []"
  shows "upload env traversed ign st =
           \<lparr>thrown = Some (DuplicateUploadError dups), final = st, trace = []\<rparr>"
  using assms by (simp add: upload_def throws_def)



section \<open>The first-page listing\<close>

lemma drainPages_keyCount:
  "drainPages env p pages it kc st = (None, k, s, n) \<Longrightarrow>
   k = kc + sum_list (map keyCountOf (drainedBatches pages))"
proof (induction pages arbitrary: it kc st k s n)
  case Nil
  then show ?case by simp
next
  case (Cons a pages)
  show ?case
  proof (cases a)
    case (Inl e)
    then show ?thesis using Cons.prems by simp
  next
    case (Inr r)
    show ?thesis
    proof (cases "truthy (NextContinuationToken r)")
      case False
      then show ?thesis using Cons.prems Inr
        by (simp add: Let_def keyCountOf_def)
    next
      case True
      let ?st1 = "(if it = 1
                   then (processFetchedObjects env p (Contents r) (CommonPrefixes r) st)
                          \<lparr>activeObjectsRange := \<lparr>rangeStart = 1, rangeEnd = MAX_KEY_COUNT\<rparr>\<rparr>
                   else st)"
      let ?st2 = "?st1\<lparr>continuationTokens := AList.update (MAX_KEY_COUNT * (it + 1))
               (orBlank (NextContinuationToken r)) (continuationTokens ?st1)\<rparr>"
      obtain e' k' s' n' where d:
        "drainPages env p pages (it + 1) (kc + keyCountOf r) ?st2 = (e', k', s', n')"
        by (metis prod_cases4)
      from Cons.prems Inr True d have eq: "e' = None" "k' = k"
        by (simp_all add: Let_def keyCountOf_def)
      from Cons.IH [OF d [unfolded eq]] show ?thesis
        using Inr True by simp
    qed
  qed
qed

lemma listing_bucketA_a: "delimitedListing bucketA ''a/'' =
   \<lparr>Contents = Some [storedObject ''a/'' 0 1 100, storedObject ''a/x.txt'' 7 2 200],
    CommonPrefixes = Some [], KeyCount = Some 2, NextContinuationToken = None\<rparr>"
  by (simp add: delimitedListing_def bucketA_def storedObject_def Let_def)

lemma listing_bucketA_root: "delimitedListing bucketA [] =
   \<lparr>Contents = Some [storedObject ''b.txt'' 9 3 300],
    CommonPrefixes = Some [\<lparr>Prefix = Some ''a/''\<rparr>], KeyCount = Some 2, NextContinuationToken = None\<rparr>"
  by (simp add: delimitedListing_def bucketA_def storedObject_def Let_def)

lemma browse_bucketA_a:
  "thrown (initList env0 ''a/'' [Inr (delimitedListing bucketA ''a/'')] st0) = None \<and>
   files (final (initList env0 ''a/'' [Inr (delimitedListing bucketA ''a/'')] st0)) =
     [asBrowserObject ((storedObject ''x.txt'' 7 2 200)\<lparr>path := Some ''a/'', otype := Some TFile\<rparr>)] \<and>
   totalObjectCount (final (initList env0 ''a/'' [Inr (delimitedListing bucketA ''a/'')] st0)) = 1"
  using st0_initialized
  by (simp add: listing_bucketA_a initList_def truthy_def returns_def processFetchedObjects_def env0_def
      orEmpty_def insertionSort_def contentsCompare_def storedObject_def updateFiles_def
      isFileVisible_def makeFileRelative_def asBrowserObject_def JsObject.extend_def
      isPrefixDefined_def sublist_code)

lemma browse_bucketA_root:
  "thrown (initList env0 [] [Inr (delimitedListing bucketA [])] st0) = None \<and>
   files (final (initList env0 [] [Inr (delimitedListing bucketA [])] st0)) =
     [prefixToFolder env0 [] \<lparr>Prefix = Some ''a/''\<rparr>,
      asBrowserObject ((storedObject ''b.txt'' 9 3 300)\<lparr>path := Some [], otype := Some TFile\<rparr>)] \<and>
   Key (prefixToFolder env0 [] \<lparr>Prefix = Some ''a/''\<rparr>) = ''a'' \<and>
   totalObjectCount (final (initList env0 [] [Inr (delimitedListing bucketA [])] st0)) = 2"
  using st0_initialized
  by (simp add: listing_bucketA_root initList_def truthy_def returns_def processFetchedObjects_def env0_def
      orEmpty_def insertionSort_def contentsCompare_def storedObject_def updateFiles_def
      isFileVisible_def makeFileRelative_def asBrowserObject_def JsObject.extend_def
      isPrefixDefined_def prefixToFolder_def sublist_code)

text \<open>
  Scenario A at the prefix \<open>a/\<close>: the backend lists the two keys \<open>a/\<close> and \<open>a/x.txt\<close>, so
  \<open>KeyCount\<close> is 2; the only file shown is \<open>x.txt\<close>, and the count after the decrement is
  1, not 0.
\<close>

theorem initList_scenarioA_count_counterexample:
  "KeyCount (delimitedListing bucketA ''a/'') = Some 2 \<and>
   thrown (initList env0 ''a/'' [Inr (delimitedListing bucketA ''a/'')] st0) = None \<and>
   map Key (files (final (initList env0 ''a/'' [Inr (delimitedListing bucketA ''a/'')] st0))) =
     [''x.txt''] \<and>
   totalObjectCount (final (initList env0 ''a/'' [Inr (delimitedListing bucketA ''a/'')] st0))
     \<noteq> 0"
  using browse_bucketA_a
  by (simp add: listing_bucketA_a asBrowserObject_def JsObject.extend_def storedObject_def)

text \<open>
  C9, amended. When \<open>initList\<close> returns, \<open>totalObjectCount\<close> is the sum of \<open>KeyCount\<close>
  over the batches it drained, less one exactly when the prefix is not empty. For the
  bucket of scenario A, browsing \<open>a/\<close> gives exactly the file \<open>x.txt\<close> and the count 1.
\<close>

theorem initList_totalObjectCount:
  "(thrown (initList env p pages st) = None \<longrightarrow>
      totalObjectCount (final (initList env p pages st)) =
        sum_list (map keyCountOf (drainedBatches pages)) - (if p = [] then 0 else 1)) \<and>
   map Key (files (final (initList env0 ''a/'' [Inr (delimitedListing bucketA ''a/'')] st0))) =
     [''x.txt''] \<and>
   totalObjectCount (final (initList env0 ''a/'' [Inr (delimitedListing bucketA ''a/'')] st0))
     = 1"
proof -
  have "totalObjectCount (final (initList env p pages st)) =
          sum_list (map keyCountOf (drainedBatches pages)) - (if p = [] then 0 else 1)"
    if ok: "thrown (initList env p pages st) = None"
  proof -
    from ok have i: "isInitialized st"
      by (auto simp: initList_def throws_def split: if_splits)
    obtain e k s n where d: "drainPages env p pages 1 0 st = (e, k, s, n)"
      by (metis prod_cases4)
    from ok i d have e: "e = None"
      by (cases e) (auto simp: initList_def throws_def)
    from drainPages_keyCount [OF d [unfolded e]]
    have "k = sum_list (map keyCountOf (drainedBatches pages))" by simp
    then show ?thesis
      using i d e by (simp add: initList_def returns_def)
  qed
  then show ?thesis
    using browse_bucketA_a
    by (simp add: asBrowserObject_def JsObject.extend_def storedObject_def)
qed

theorem initList_totalObjectCount_witness:
  "thrown (initList env0 ''a/'' [Inr (delimitedListing bucketA ''a/'')] st0) = None \<and>
   sum_list (map keyCountOf (drainedBatches [Inr (delimitedListing bucketA ''a/'')])) = 2 \<and>
   totalObjectCount (final (initList env0 ''a/'' [Inr (delimitedListing bucketA ''a/'')] st0))
     = 2 - 1"
proof -
  have ok: "thrown (initList env0 ''a/'' [Inr (delimitedListing bucketA ''a/'')] st0) = None"
    using browse_bucketA_a by simp
  have s: "sum_list (map keyCountOf (drainedBatches [Inr (delimitedListing bucketA ''a/'')])) = 2"
    by (simp add: listing_bucketA_a keyCountOf_def truthy_def)
  show ?thesis
    using initList_totalObjectCount [of env0 "''a/''" "[Inr (delimitedListing bucketA ''a/'')]" st0]
      ok s
    by simp
qed

section \<open>A listing that fails\<close>

lemma drainPages_later_files:
  "it \<noteq> 1 \<Longrightarrow> 0 < it \<Longrightarrow> drainPages env p pages it kc st = (e, k, s, n) \<Longrightarrow> files s = files st"
proof (induction pages arbitrary: it kc st e k s n)
  case Nil
  then show ?case by simp
next
  case (Cons a pages)
  show ?case
  proof (cases a)
    case (Inl x)
    then show ?thesis using Cons.prems by simp
  next
    case (Inr r)
    show ?thesis
    proof (cases "truthy (NextContinuationToken r)")
      case False
      then show ?thesis using Cons.prems Inr by (simp add: Let_def)
    next
      case True
      obtain e' k' s' n' where d: "drainPages env p pages (it + 1) (kc + keyCountOf r)
           (st\<lparr>continuationTokens := AList.update (MAX_KEY_COUNT * (it + 1))
               (orBlank (NextContinuationToken r)) (continuationTokens st)\<rparr>) = (e', k', s', n')"
        by (metis prod_cases4)
      have "files s' = files (st\<lparr>continuationTokens := AList.update (MAX_KEY_COUNT * (it + 1))
               (orBlank (NextContinuationToken r)) (continuationTokens st)\<rparr>)"
        using Cons.IH[OF _ _ d] Cons.prems by simp
      then show ?thesis using Cons.prems Inr True d
        by (simp add: Let_def keyCountOf_def)
    qed
  qed
qed

lemma initList_error_files:
  "thrown (initList env p pages st) \<noteq> None \<Longrightarrow>
   files (final (initList env p pages st)) =
     (case pages of
        Inr r1 # rest \<Rightarrow>
          if isInitialized st
          then files (processFetchedObjects env p (Contents r1) (CommonPrefixes r1) st)
          else files st
      | _ \<Rightarrow> files st)"
proof (cases "isInitialized st")
  case False
  then show ?thesis by (simp add: initList_def throws_def split: list.splits sum.splits)
next
  case True
  show ?thesis
  proof (cases pages)
    case Nil
    then show ?thesis using True by (simp add: initList_def returns_def throws_def)
  next
    case (Cons a rest)
    show ?thesis
    proof (cases a)
      case (Inl x)
      then show ?thesis using True Cons by (simp add: initList_def returns_def throws_def)
    next
      case (Inr r)
      show ?thesis
      proof (cases "truthy (NextContinuationToken r)")
        case False
        then show ?thesis using True Cons Inr
          by (simp add: initList_def returns_def throws_def Let_def)
      next
        case t: True
        let ?st1 = "(processFetchedObjects env p (Contents r) (CommonPrefixes r) st)
                      \<lparr>activeObjectsRange := \<lparr>rangeStart = 1, rangeEnd = MAX_KEY_COUNT\<rparr>\<rparr>"
        let ?st2 = "?st1\<lparr>continuationTokens := AList.update (MAX_KEY_COUNT * (1 + 1))
               (orBlank (NextContinuationToken r)) (continuationTokens ?st1)\<rparr>"
        obtain e' k' s' n' where d: "drainPages env p rest (1 + 1) (0 + keyCountOf r) ?st2 = (e', k', s', n')"
          by (metis prod_cases4)
        have "files s' = files ?st2"
          using drainPages_later_files[OF _ _ d] by simp
        then show ?thesis using True Cons Inr t d
          by (cases e') (simp_all add: initList_def returns_def throws_def Let_def keyCountOf_def)
      qed
    qed
  qed
qed


text \<open>
  \<open>initList\<close> shows the first batch at once. When the request for the second page fails,
  the attempt throws, and \<open>files\<close> is the first batch, not what it held before.
\<close>

theorem initList_later_failure_counterexample:
  "thrown (initList env0 [] [Inr truncatedRoot, Inl networkError] listedDup) =
     Some networkError \<and>
   map Key (files listedDup) = [''dup''] \<and>
   map Key (files (final (initList env0 [] [Inr truncatedRoot, Inl networkError] listedDup))) =
     [''a'', ''b.txt''] \<and>
   files (final (initList env0 [] [Inr truncatedRoot, Inl networkError] listedDup)) \<noteq>
     files listedDup"
proof -
  have i: "isInitialized listedDup"
    by (simp add: listedDup_def st0_def init_def isInitialized_def)
  have t: "thrown (initList env0 [] [Inr truncatedRoot, Inl networkError] listedDup) =
             Some networkError"
    using i by (simp add: initList_def truncatedRoot_def truthy_def throws_def Let_def)
  have f: "map Key (files (processFetchedObjects env0 [] (Contents truncatedRoot)
             (CommonPrefixes truncatedRoot) listedDup)) = [''a'', ''b.txt'']"
    by (simp add: truncatedRoot_def listing_bucketA_root processFetchedObjects_def env0_def
        orEmpty_def insertionSort_def contentsCompare_def storedObject_def updateFiles_def
        isFileVisible_def makeFileRelative_def asBrowserObject_def JsObject.extend_def
        isPrefixDefined_def prefixToFolder_def sublist_code)
  have d: "map Key (files listedDup) = [''dup'']"
    by (simp add: listedDup_def asBrowserObject_def JsObject.extend_def)
  have e: "files (final (initList env0 [] [Inr truncatedRoot, Inl networkError] listedDup)) =
           files (processFetchedObjects env0 [] (Contents truncatedRoot)
             (CommonPrefixes truncatedRoot) listedDup)"
    using initList_error_files [of env0 "[]" "[Inr truncatedRoot, Inl networkError]" listedDup] t i
    by simp
  have "map Key (files (final (initList env0 [] [Inr truncatedRoot, Inl networkError] listedDup)))
          \<noteq> map Key (files listedDup)"
    using e f d by simp
  then have "files (final (initList env0 [] [Inr truncatedRoot, Inl networkError] listedDup)) \<noteq>
     files listedDup" by auto
  then show ?thesis
    using t d e f by simp
qed

text \<open>
  C6, amended. When the request of \<open>listCustom\<close>, \<open>listByToken\<close> or \<open>listAllVersions\<close>
  fails, or the first request of \<open>initList\<close>, the attempt throws and \<open>files\<close> is what it
  was before the attempt. When \<open>initList\<close> throws after its first page has arrived,
  \<open>files\<close> is that first page as \<open>processFetchedObjects\<close> builds it, whole.
\<close>

theorem listing_error_files:
  "(thrown (listCustom env p pg sv (Inl e) st) \<noteq> None \<and>
    files (final (listCustom env p pg sv (Inl e) st)) = files st) \<and>
   (thrown (listByToken env p n tok (Inl e) st) \<noteq> None \<and>
    files (final (listByToken env p n tok (Inl e) st)) = files st) \<and>
   (thrown (listAllVersions env p pg sv (Inl e) st) \<noteq> None \<and>
    files (final (listAllVersions env p pg sv (Inl e) st)) = files st) \<and>
   (thrown (initList env p (Inl e # rest) st) \<noteq> None \<and>
    files (final (initList env p (Inl e # rest) st)) = files st) \<and>
   (thrown (initList env p (Inr r1 # rest) st) \<noteq> None \<longrightarrow>
    files (final (initList env p (Inr r1 # rest) st)) =
      (if isInitialized st
       then files (processFetchedObjects env p (Contents r1) (CommonPrefixes r1) st)
       else files st))"
proof -
  have a: "thrown (listCustom env p pg sv (Inl e) st) \<noteq> None \<and>
           files (final (listCustom env p pg sv (Inl e) st)) = files st"
    by (simp add: listCustom_def throws_def Let_def)
  have b: "thrown (listByToken env p n tok (Inl e) st) \<noteq> None \<and>
           files (final (listByToken env p n tok (Inl e) st)) = files st"
    by (simp add: listByToken_def throws_def)
  have c: "thrown (listAllVersions env p pg sv (Inl e) st) \<noteq> None \<and>
           files (final (listAllVersions env p pg sv (Inl e) st)) = files st"
    by (simp add: listAllVersions_def throws_def Let_def)
  have d: "thrown (initList env p (Inl e # rest) st) \<noteq> None \<and>
           files (final (initList env p (Inl e # rest) st)) = files st"
    by (simp add: initList_def throws_def)
  have f: "files (final (initList env p (Inr r1 # rest) st)) =
      (if isInitialized st
       then files (processFetchedObjects env p (Contents r1) (CommonPrefixes r1) st)
       else files st)"
    if "thrown (initList env p (Inr r1 # rest) st) \<noteq> None"
    using initList_error_files [OF that] by simp
  show ?thesis
    using a b c d f by blast
qed

theorem listing_error_files_witness:
  "thrown (listCustom env0 [] 1 False (Inl networkError) listedDup) \<noteq> None \<and>
   files (final (listCustom env0 [] 1 False (Inl networkError) listedDup)) = files listedDup \<and>
   files (final (listAllVersions env0 [] 1 False (Inl networkError) listedDup)) =
     files listedDup \<and>
   thrown (initList env0 [] [Inr truncatedRoot, Inl networkError] listedDup) \<noteq> None \<and>
   isInitialized listedDup \<and>
   files (final (initList env0 [] [Inr truncatedRoot, Inl networkError] listedDup)) =
     files (processFetchedObjects env0 [] (Contents truncatedRoot)
              (CommonPrefixes truncatedRoot) listedDup)"
proof -
  have i: "isInitialized listedDup"
    by (simp add: listedDup_def st0_def init_def isInitialized_def)
  have t: "thrown (initList env0 [] [Inr truncatedRoot, Inl networkError] listedDup) \<noteq> None"
    using i by (simp add: initList_def truncatedRoot_def truthy_def throws_def Let_def)
  show ?thesis
    using listing_error_files [of env0 "[]" 1 False networkError listedDup 0 "[]"
        "[Inl networkError]" truncatedRoot] i t
    by simp
qed

section \<open>Grouping the versions of a key\<close>

lemma Key_versionObject [simp]: "Key (versionObject env p item) = Key item"
  by (simp add: versionObject_def)

lemma consistent_versionsCompare: "consistentComparator versionsCompare S"
  by (auto simp: consistentComparator_def versionsCompare_def)

lemma insertBy_versionsCompare:
  "insertBy versionsCompare x ys = insort_key (\<lambda>x. - timeOf (LastModified x)) x ys"
  by (induction ys) (auto simp: versionsCompare_def)

lemma insertionSort_versionsCompare:
  "insertionSort versionsCompare xs = sort_key (\<lambda>x. - timeOf (LastModified x)) xs"
  by (induction xs) (simp_all add: insertionSort_def sort_key_def insertBy_versionsCompare)

lemma conforming_versions:
  "conformingSort srt \<Longrightarrow> srt versionsCompare xs = insertionSort versionsCompare xs"
  using consistent_versionsCompare by (auto simp: conformingSort_def)

lemma mset_insertionSort_versions:
  "mset (insertionSort versionsCompare xs) = mset xs"
  by (simp add: insertionSort_versionsCompare)

lemma sorted_insertionSort_versions:
  "sorted_wrt (\<lambda>a b. timeOf (LastModified b) \<le> timeOf (LastModified a))
     (insertionSort versionsCompare xs)"
proof -
  have "sorted (map (\<lambda>x. - timeOf (LastModified x)) (insertionSort versionsCompare xs))"
    by (simp add: insertionSort_versionsCompare)
  then show ?thesis
    by (simp add: sorted_map)
qed

lemma groupItems_invariant:
  "distinct (map fst g) \<Longrightarrow>
   distinct (map fst (groupItems env p items g)) \<and>
   (\<forall>k. map_of (groupItems env p items g) k =
      (case map_of g k of
         Some xs \<Rightarrow> Some (xs @ groupOf k (entriesOf env p items))
       | None \<Rightarrow> (if groupOf k (entriesOf env p items) = [] then None
                  else Some (groupOf k (entriesOf env p items)))))"
proof (induction items arbitrary: g)
  case Nil
  then show ?case
    by (auto simp: entriesOf_def groupOf_def split: option.splits)
next
  case (Cons item0 rest)
  let ?item = "makeFileRelative p item0"
  show ?case
  proof (cases "isFileVisible ?item")
    case False
    then have e: "entriesOf env p (item0 # rest) = entriesOf env p rest"
      by (simp add: entriesOf_def)
    have s: "groupItems env p (item0 # rest) g = groupItems env p rest g"
      using False by (simp add: Let_def)
    show ?thesis
      unfolding s e by (rule Cons.IH [OF Cons.prems])
  next
    case True
    let ?k0 = "Key ?item"
    let ?vo = "versionObject env p ?item"
    let ?old = "case map_of g ?k0 of None \<Rightarrow> [] | Some xs \<Rightarrow> xs"
    let ?g1 = "if map_of g ?k0 = None then AList.update ?k0 [] g else g"
    let ?g2 = "AList.update ?k0 (?old @ [?vo]) ?g1"
    have m1: "map_of ?g1 ?k0 = Some ?old"
      by (auto simp: update_conv')
    have step: "groupItems env p (item0 # rest) g = groupItems env p rest ?g2"
      using True m1 by (simp add: Let_def del: map_of_eq_None_iff)
    have d2: "distinct (map fst ?g2)"
      using Cons.prems by (simp add: distinct_update)
    have m2: "map_of ?g2 = (map_of g)(?k0 \<mapsto> ?old @ [?vo])"
      by (auto simp: update_conv' fun_eq_iff)
    have ent: "entriesOf env p (item0 # rest) = ?vo # entriesOf env p rest"
      using True by (simp add: entriesOf_def)
    from Cons.IH [OF d2] have
      ih1: "distinct (map fst (groupItems env p rest ?g2))" and
      ih2: "\<And>k. map_of (groupItems env p rest ?g2) k =
        (case map_of ?g2 k of
           Some xs \<Rightarrow> Some (xs @ groupOf k (entriesOf env p rest))
         | None \<Rightarrow> (if groupOf k (entriesOf env p rest) = [] then None
                    else Some (groupOf k (entriesOf env p rest))))"
      by blast+
    have "map_of (groupItems env p rest ?g2) k =
      (case map_of g k of
         Some xs \<Rightarrow> Some (xs @ groupOf k (?vo # entriesOf env p rest))
       | None \<Rightarrow> (if groupOf k (?vo # entriesOf env p rest) = [] then None
                  else Some (groupOf k (?vo # entriesOf env p rest))))" for k
      unfolding ih2 m2
      by (cases "k = ?k0") (auto simp: groupOf_def split: option.splits)
    then show ?thesis
      unfolding step ent using ih1 by blast
  qed
qed

lemma groupItems_groups:
  assumes "(k, xs) \<in> set (groupItems env p items [])"
  shows "xs = groupOf k (entriesOf env p items) \<and> xs \<noteq> []"
proof -
  from groupItems_invariant [of "[]" env p items]
  have d: "distinct (map fst (groupItems env p items []))"
    and m: "\<And>k. map_of (groupItems env p items []) k =
       (if groupOf k (entriesOf env p items) = [] then None
        else Some (groupOf k (entriesOf env p items)))"
    by simp_all
  from assms d have "map_of (groupItems env p items []) k = Some xs"
    by simp
  then show ?thesis
    unfolding m by (auto split: if_splits)
qed

lemma groupItems_keys:
  "distinct (map fst (groupItems env p items [])) \<and>
   set (map fst (groupItems env p items [])) = Key ` set (entriesOf env p items)"
proof -
  from groupItems_invariant [of "[]" env p items]
  have d: "distinct (map fst (groupItems env p items []))"
    and m: "\<And>k. map_of (groupItems env p items []) k =
       (if groupOf k (entriesOf env p items) = [] then None
        else Some (groupOf k (entriesOf env p items)))"
    by simp_all
  have "k \<in> set (map fst (groupItems env p items [])) \<longleftrightarrow> k \<in> Key ` set (entriesOf env p items)" for k
  proof -
    have "k \<in> set (map fst (groupItems env p items [])) \<longleftrightarrow> map_of (groupItems env p items []) k \<noteq> None"
      by (simp add: map_of_eq_None_iff)
    also have "\<dots> \<longleftrightarrow> groupOf k (entriesOf env p items) \<noteq> []"
      unfolding m by simp
    also have "\<dots> \<longleftrightarrow> k \<in> Key ` set (entriesOf env p items)"
      by (auto simp: groupOf_def filter_empty_conv)
    finally show ?thesis .
  qed
  then show ?thesis using d by blast
qed

lemma latestObjects_rows:
  assumes "conformingSort (arraySort env)"
  shows "list_all (\<lambda>kx. snd kx \<noteq> []) g \<Longrightarrow>
    \<exists>keys rows. latestObjects env g = Inr (keys, rows) \<and>
      list_all2 (\<lambda>kx row. representative (fst kx) (snd kx) row) g rows"
proof (induction g)
  case Nil
  then show ?case by simp
next
  case (Cons a g)
  obtain k xs where a: "a = (k, xs)" by (cases a)
  from Cons.prems a have ne: "xs \<noteq> []" and rest: "list_all (\<lambda>kx. snd kx \<noteq> []) g"
    by simp_all
  from Cons.IH [OF rest] obtain keys rows where
    l: "latestObjects env g = Inr (keys, rows)" and
    r: "list_all2 (\<lambda>kx row. representative (fst kx) (snd kx) row) g rows"
    by blast
  have s: "arraySort env versionsCompare xs = insertionSort versionsCompare xs"
    using assms by (rule conforming_versions)
  have "mset (insertionSort versionsCompare xs) \<noteq> {#}"
    using ne by (simp add: mset_insertionSort_versions)
  then obtain v vs where vv: "insertionSort versionsCompare xs = v # vs"
    by (cases "insertionSort versionsCompare xs") auto
  show ?case
    unfolding a using l r s vv
    by (simp add: representative_def)
qed


lemma list_all2_right_set:
  "list_all2 P xs ys \<Longrightarrow> y \<in> set ys \<Longrightarrow> \<exists>x\<in>set xs. P x y"
  by (induction rule: list_all2_induct) auto

lemma list_all2_map_eq:
  "list_all2 (\<lambda>x y. f x = h y) xs ys \<Longrightarrow> map f xs = map h ys"
  by (induction rule: list_all2_induct) auto

lemma representative_Key: "representative k xs row \<Longrightarrow> Key row = k"
  by (auto simp: representative_def split: list.splits)

lemma conforming_insertionSort: "conformingSort insertionSort"
  by (simp add: conformingSort_def)

lemma docVersion_relative:
  "isFileVisible (makeFileRelative [] (docVersion vid r t)) \<and>
   Key (makeFileRelative [] (docVersion vid r t)) = ''doc.txt'' \<and>
   versionObject env0 [] (makeFileRelative [] (docVersion vid r t)) = docRow vid r t False"
  by (simp add: docVersion_def makeFileRelative_def isFileVisible_def sublist_code
      versionObject_def docRow_def)

lemma docMarker_relative:
  "isFileVisible (makeFileRelative [] docMarker) \<and>
   Key (makeFileRelative [] docMarker) = ''doc.txt'' \<and>
   versionObject env0 [] (makeFileRelative [] docMarker) = docRow ''v4'' 4 400 True"
  by (simp add: docMarker_def makeFileRelative_def isFileVisible_def sublist_code
      versionObject_def docRow_def)

lemma scenarioB_groups:
  "groupItems env0 []
     [docVersion ''v3'' 3 300, docVersion ''v2'' 2 200, docVersion ''v1'' 5 100, docMarker] [] =
   [(''doc.txt'', [docRow ''v3'' 3 300 False, docRow ''v2'' 2 200 False,
                   docRow ''v1'' 5 100 False, docRow ''v4'' 4 400 True])]"
  by (simp add: docVersion_relative docMarker_relative Let_def)

lemma docRow_compare:
  "versionsCompare (docRow v r t m) (docRow v' r' t' m') = t' - t"
  by (simp add: versionsCompare_def timeOf_def docRow_def)

lemma scenarioB_sorted:
  "insertionSort versionsCompare
     [docRow ''v3'' 3 300 False, docRow ''v2'' 2 200 False,
      docRow ''v1'' 5 100 False, docRow ''v4'' 4 400 True] =
   [docRow ''v4'' 4 400 True, docRow ''v3'' 3 300 False, docRow ''v2'' 2 200 False,
    docRow ''v1'' 5 100 False]"
  by (simp add: insertionSort_def docRow_compare)

lemma scenarioB_latest:
  "latestObjects env0
     [(''doc.txt'', [docRow ''v3'' 3 300 False, docRow ''v2'' 2 200 False,
                     docRow ''v1'' 5 100 False, docRow ''v4'' 4 400 True])] =
   Inr ([''doc.txt''],
        [\<lparr>Key = ''doc.txt'', VersionId = None, Size = Some 0,
          LastModified = Some \<lparr>dateRef = 4, getTime = 400\<rparr>, IsLatest = None,
          otype = Some TFile, isDeleteMarker = Some True, isLatest = None, progress = None,
          uploadHandle = False, path = Some [],
          Versions = Some [docRow ''v4'' 4 400 True, docRow ''v3'' 3 300 False,
                           docRow ''v2'' 2 200 False, docRow ''v1'' 5 100 False]\<rparr>])"
proof -
  have a: "arraySort env0 = insertionSort"
    by (simp add: env0_def)
  show ?thesis
    unfolding latestObjects.simps a scenarioB_sorted
    by (simp add: docRow_def orBlank_def)
qed

lemma scenarioB_files:
  "files (final (listAllVersions env0 [] 1 False (Inr scenarioB) st0)) =
     [\<lparr>Key = ''doc.txt'', VersionId = None, Size = Some 0,
       LastModified = Some \<lparr>dateRef = 4, getTime = 400\<rparr>, IsLatest = None,
       otype = Some TFile, isDeleteMarker = Some True, isLatest = None, progress = None,
       uploadHandle = False, path = Some [],
       Versions = Some [docRow ''v4'' 4 400 True, docRow ''v3'' 3 300 False,
                        docRow ''v2'' 2 200 False, docRow ''v1'' 5 100 False]\<rparr>]"
proof -
  have i: "orEmpty (respVersions scenarioB) @ orEmpty (DeleteMarkers scenarioB) =
      [docVersion ''v3'' 3 300, docVersion ''v2'' 2 200, docVersion ''v1'' 5 100, docMarker]"
    by (simp add: scenarioB_def orEmpty_def)
  have c: "orEmpty (versCommonPrefixes scenarioB) = []"
    by (simp add: scenarioB_def orEmpty_def)
  have l: "latestObjects env0 (groupItems env0 []
             (orEmpty (respVersions scenarioB) @ orEmpty (DeleteMarkers scenarioB)) []) =
           Inr ([''doc.txt''],
        [\<lparr>Key = ''doc.txt'', VersionId = None, Size = Some 0,
          LastModified = Some \<lparr>dateRef = 4, getTime = 400\<rparr>, IsLatest = None,
          otype = Some TFile, isDeleteMarker = Some True, isLatest = None, progress = None,
          uploadHandle = False, path = Some [],
          Versions = Some [docRow ''v4'' 4 400 True, docRow ''v3'' 3 300 False,
                           docRow ''v2'' 2 200 False, docRow ''v1'' 5 100 False]\<rparr>])"
    unfolding i scenarioB_groups by (rule scenarioB_latest)
  show ?thesis
    using st0_initialized
    by (simp add: listAllVersions_def Let_def l c returns_def updateFiles_def)
qed


lemma insort_key_map:
  "insort_key f (h x) (map h ys) = map h (insort_key (\<lambda>a. f (h a)) x ys)"
  by (induction ys) simp_all

lemma sort_key_map: "sort_key f (map h xs) = map h (sort_key (\<lambda>a. f (h a)) xs)"
  by (induction xs) (simp_all add: insort_key_map)

lemma list_all2_map_same:
  "(\<And>x. x \<in> set xs \<Longrightarrow> P (h x) x) \<Longrightarrow> list_all2 P (map h xs) xs"
  by (induction xs) auto

lemma Key_relative: "Key (makeFileRelative p r) = relativeKey p r"
  by (simp add: makeFileRelative_def relativeKey_def)

lemma visible_relative:
  "isFileVisible (makeFileRelative p r) = visibleKey (relativeKey p r)"
  by (auto simp: isFileVisible_def makeFileRelative_def visibleKey_def relativeKey_def)

lemma entriesOf_map:
  "entriesOf env p items =
     map (versionObject env p \<circ> makeFileRelative p)
       (filter (\<lambda>r. visibleKey (relativeKey p r)) items)"
  by (simp add: entriesOf_def filter_map comp_def visible_relative)

lemma Key_entry: "Key (versionObject env p (makeFileRelative p r)) = relativeKey p r"
  by (simp add: makeFileRelative_def relativeKey_def)

lemma groupOf_entriesOf:
  assumes "visibleKey k"
  shows "groupOf k (entriesOf env p items) =
           map (versionObject env p \<circ> makeFileRelative p) (keyGroup p k items)"
proof -
  have "filter (\<lambda>r. relativeKey p r = k) (filter (\<lambda>r. visibleKey (relativeKey p r)) items) =
        filter (\<lambda>r. relativeKey p r = k) items"
    using assms by (induction items) auto
  then show ?thesis
    by (simp add: groupOf_def entriesOf_map filter_map comp_def Key_relative keyGroup_def)
qed

lemma time_entry:
  "timeOf (LastModified (versionObject env p (makeFileRelative p r))) = getTime (dateOf env r)"
  by (simp add: versionObject_def makeFileRelative_def timeOf_def dateOf_def
      split: option.splits)

lemma sorted_group:
  assumes "visibleKey k"
  shows "insertionSort versionsCompare (groupOf k (entriesOf env p items)) =
           map (versionObject env p \<circ> makeFileRelative p)
             (mostRecentFirst env (keyGroup p k items))"
  unfolding groupOf_entriesOf [OF assms] insertionSort_versionsCompare sort_key_map
    mostRecentFirst_def
  by (simp add: comp_def time_entry)

lemma entry_fields:
  "VersionId (versionObject env p (makeFileRelative p r)) = VersionId r \<and>
   LastModified (versionObject env p (makeFileRelative p r)) = Some (dateOf env r) \<and>
   isDeleteMarker (versionObject env p (makeFileRelative p r)) = Some (Size r = None) \<and>
   Size (versionObject env p (makeFileRelative p r)) =
     Some (case Size r of None \<Rightarrow> 0 | Some n \<Rightarrow> n) \<and>
   otype (versionObject env p (makeFileRelative p r)) = Some TFile"
  by (simp add: versionObject_def makeFileRelative_def dateOf_def)

lemma marker_by_shape:
  assumes "wellShaped response" and "r \<in> set (returnedEntries response)"
  shows "(Size r = None) = (r \<in> set (orEmpty (DeleteMarkers response)))"
  using assms by (auto simp: wellShaped_def returnedEntries_def list_all_iff)

lemma mostRecentFirst_head:
  assumes "mostRecentFirst env rs = v # vs" and "r \<in> set rs"
  shows "getTime (dateOf env r) \<le> getTime (dateOf env v)"
proof -
  have "sorted (map (\<lambda>r. - getTime (dateOf env r)) (v # vs))"
    using assms(1) [symmetric] by (simp add: mostRecentFirst_def)
  moreover have "r \<in> set (v # vs)"
    using assms by (metis mostRecentFirst_def set_sort)
  ultimately show ?thesis by auto
qed

lemma scenarioB_shape: "wellShaped scenarioB"
  by (simp add: wellShaped_def scenarioB_def orEmpty_def docVersion_def docMarker_def)

lemma scenarioB_order:
  "mostRecentFirst env0 (keyGroup [] ''doc.txt'' (returnedEntries scenarioB)) =
     [docMarker, docVersion ''v3'' 3 300, docVersion ''v2'' 2 200, docVersion ''v1'' 5 100]"
proof -
  have k: "keyGroup [] ''doc.txt'' (returnedEntries scenarioB) =
      [docVersion ''v3'' 3 300, docVersion ''v2'' 2 200, docVersion ''v1'' 5 100, docMarker]"
    by (simp add: keyGroup_def returnedEntries_def scenarioB_def orEmpty_def relativeKey_def
        docVersion_def docMarker_def)
  have t: "getTime (dateOf env0 (docVersion vid r t)) = t" for vid r t
    by (simp add: dateOf_def docVersion_def)
  have m: "getTime (dateOf env0 docMarker) = 400"
    by (simp add: dateOf_def docMarker_def)
  show ?thesis
    unfolding k mostRecentFirst_def by (simp add: t m)
qed

text \<open>
  C3. With an engine whose sort meets the ECMAScript contract and an initialised client,
  \<open>listAllVersions\<close> on a listing that arrived returns, and \<open>files\<close> is the folders of the
  common prefixes followed by one row for each visible relative key among the returned
  version and delete-marker entries. Take the returned entries of the key of a row, most
  recent first: no entry of the key is more recent than the first of them; the row has
  the date and the size of that first entry and is a delete marker exactly when that
  entry carries no \<open>Size\<close>, which in a well-shaped response is exactly when it is one of
  \<open>DeleteMarkers\<close>; and the \<open>Versions\<close> of the row are these entries in that order, each
  with the key of the row and its own version id, date, size and marker flag.
\<close>

theorem listAllVersions_groups:
  assumes "conformingSort (arraySort env)" and "isInitialized st"
  shows "\<exists>rows.
     thrown (listAllVersions env p pg sv (Inr response) st) = None \<and>
     files (final (listAllVersions env p pg sv (Inr response) st)) =
       map (prefixToFolder env p)
         (filter isPrefixDefined (orEmpty (versCommonPrefixes response))) @ rows \<and>
     distinct (map Key rows) \<and>
     set (map Key rows) =
       {k \<in> relativeKey p ` set (returnedEntries response). visibleKey k} \<and>
     (\<forall>row\<in>set rows. \<exists>v vs es.
        v # vs = mostRecentFirst env (keyGroup p (Key row) (returnedEntries response)) \<and>
        (\<forall>r\<in>set (keyGroup p (Key row) (returnedEntries response)).
           getTime (dateOf env r) \<le> getTime (dateOf env v)) \<and>
        LastModified row = Some (dateOf env v) \<and>
        isDeleteMarker row = Some (Size v = None) \<and>
        (wellShaped response \<longrightarrow>
           isDeleteMarker row = Some (v \<in> set (orEmpty (DeleteMarkers response)))) \<and>
        Size row = Some (case Size v of None \<Rightarrow> 0 | Some n \<Rightarrow> n) \<and>
        otype row = Some TFile \<and>
        Versions row = Some es \<and>
        list_all2
          (\<lambda>e r. Key e = Key row \<and> VersionId e = VersionId r \<and>
                 LastModified e = Some (dateOf env r) \<and>
                 isDeleteMarker e = Some (Size r = None) \<and>
                 (wellShaped response \<longrightarrow>
                    isDeleteMarker e = Some (r \<in> set (orEmpty (DeleteMarkers response)))) \<and>
                 Size e = Some (case Size r of None \<Rightarrow> 0 | Some n \<Rightarrow> n))
          es (v # vs))"
proof -
  let ?items = "returnedEntries response"
  let ?g = "groupItems env p ?items []"
  let ?h = "versionObject env p \<circ> makeFileRelative p"
  have ne: "list_all (\<lambda>kx. snd kx \<noteq> []) ?g"
    unfolding list_all_iff using groupItems_groups [of _ _ env p ?items] by auto
  from latestObjects_rows [OF assms(1) ne] obtain keys rows where
    l: "latestObjects env ?g = Inr (keys, rows)" and
    r: "list_all2 (\<lambda>kx row. representative (fst kx) (snd kx) row) ?g rows"
    by blast
  have "list_all2 (\<lambda>kx row. fst kx = Key row) ?g rows"
    using r by (rule list_all2_mono) (simp add: representative_Key)
  then have keys: "map fst ?g = map Key rows"
    by (rule list_all2_map_eq)
  have t: "thrown (listAllVersions env p pg sv (Inr response) st) = None"
    using assms(2) l by (simp add: listAllVersions_def Let_def returns_def returnedEntries_def)
  have f: "files (final (listAllVersions env p pg sv (Inr response) st)) =
       map (prefixToFolder env p)
         (filter isPrefixDefined (orEmpty (versCommonPrefixes response))) @ rows"
    using assms(2) l
    by (simp add: listAllVersions_def Let_def returns_def updateFiles_def returnedEntries_def)
  have d: "distinct (map Key rows)"
    using groupItems_keys [of env p ?items] keys by simp
  have ks: "set (map Key rows) = Key ` set (entriesOf env p ?items)"
    using groupItems_keys [of env p ?items] keys by simp
  have k: "set (map Key rows) = {k \<in> relativeKey p ` set ?items. visibleKey k}"
    unfolding ks entriesOf_map by (auto simp: Key_relative image_iff)
  have rowp: "\<exists>v vs es.
        v # vs = mostRecentFirst env (keyGroup p (Key row) ?items) \<and>
        (\<forall>r\<in>set (keyGroup p (Key row) ?items).
           getTime (dateOf env r) \<le> getTime (dateOf env v)) \<and>
        LastModified row = Some (dateOf env v) \<and>
        isDeleteMarker row = Some (Size v = None) \<and>
        (wellShaped response \<longrightarrow>
           isDeleteMarker row = Some (v \<in> set (orEmpty (DeleteMarkers response)))) \<and>
        Size row = Some (case Size v of None \<Rightarrow> 0 | Some n \<Rightarrow> n) \<and>
        otype row = Some TFile \<and>
        Versions row = Some es \<and>
        list_all2
          (\<lambda>e r. Key e = Key row \<and> VersionId e = VersionId r \<and>
                 LastModified e = Some (dateOf env r) \<and>
                 isDeleteMarker e = Some (Size r = None) \<and>
                 (wellShaped response \<longrightarrow>
                    isDeleteMarker e = Some (r \<in> set (orEmpty (DeleteMarkers response)))) \<and>
                 Size e = Some (case Size r of None \<Rightarrow> 0 | Some n \<Rightarrow> n))
          es (v # vs)" if row: "row \<in> set rows" for row
  proof -
    from list_all2_right_set [OF r row] obtain kx where
      kx: "kx \<in> set ?g" and rep: "representative (fst kx) (snd kx) row"
      by blast
    have kr: "Key row = fst kx"
      using rep by (rule representative_Key)
    have vis: "visibleKey (Key row)"
      using k row by auto
    have g: "snd kx = groupOf (Key row) (entriesOf env p ?items)"
      using groupItems_groups [of "fst kx" "snd kx" env p ?items] kx kr by simp
    let ?raw = "mostRecentFirst env (keyGroup p (Key row) ?items)"
    have srt: "insertionSort versionsCompare (snd kx) = map ?h ?raw"
      unfolding g by (rule sorted_group [OF vis])
    from rep obtain v' vs' where
      s: "insertionSort versionsCompare (snd kx) = v' # vs'" and
      rw: "row = \<lparr>Key = fst kx, VersionId = None, Size = Size v',
                 LastModified = LastModified v', IsLatest = None, otype = otype v',
                 isDeleteMarker = isDeleteMarker v', isLatest = None, progress = None,
                 uploadHandle = False, path = path v', Versions = Some (v' # vs')\<rparr>"
      by (auto simp: representative_def split: list.splits)
    from s srt obtain v vs where
      raw: "?raw = v # vs" and hv: "v' = ?h v" and hvs: "vs' = map ?h vs"
      by (cases ?raw) auto
    have sub: "set (v # vs) \<subseteq> set ?items"
    proof -
      have "set ?raw = set (keyGroup p (Key row) ?items)"
        by (simp add: mostRecentFirst_def)
      then show ?thesis
        unfolding raw by (auto simp: keyGroup_def)
    qed
    have keyof: "relativeKey p x = Key row" if "x \<in> set (v # vs)" for x
    proof -
      have "set ?raw = set (keyGroup p (Key row) ?items)"
        by (simp add: mostRecentFirst_def)
      then show ?thesis
        using that unfolding raw by (auto simp: keyGroup_def)
    qed
    have mk: "(Size x = None) = (x \<in> set (orEmpty (DeleteMarkers response)))"
      if "x \<in> set (v # vs)" "wellShaped response" for x
      using marker_by_shape [OF that(2), of x] sub that(1) by auto
    have mx: "\<forall>x\<in>set (keyGroup p (Key row) ?items).
                getTime (dateOf env x) \<le> getTime (dateOf env v)"
      using mostRecentFirst_head [OF raw] by blast
    have la: "list_all2
          (\<lambda>e x. Key e = Key row \<and> VersionId e = VersionId x \<and>
                 LastModified e = Some (dateOf env x) \<and>
                 isDeleteMarker e = Some (Size x = None) \<and>
                 (wellShaped response \<longrightarrow>
                    isDeleteMarker e = Some (x \<in> set (orEmpty (DeleteMarkers response)))) \<and>
                 Size e = Some (case Size x of None \<Rightarrow> 0 | Some n \<Rightarrow> n))
          (map ?h (v # vs)) (v # vs)"
    proof (rule list_all2_map_same)
      fix x
      assume x: "x \<in> set (v # vs)"
      show "Key (?h x) = Key row \<and> VersionId (?h x) = VersionId x \<and>
            LastModified (?h x) = Some (dateOf env x) \<and>
            isDeleteMarker (?h x) = Some (Size x = None) \<and>
            (wellShaped response \<longrightarrow>
               isDeleteMarker (?h x) = Some (x \<in> set (orEmpty (DeleteMarkers response)))) \<and>
            Size (?h x) = Some (case Size x of None \<Rightarrow> 0 | Some n \<Rightarrow> n)"
        using entry_fields [of env p x] keyof [OF x] mk [OF x] Key_entry [of env p x]
        by simp
    qed
    have f1: "LastModified row = Some (dateOf env v)"
      using rw hv entry_fields [of env p v] by simp
    have f2: "isDeleteMarker row = Some (Size v = None)"
      using rw hv entry_fields [of env p v] by simp
    have f2': "wellShaped response \<longrightarrow>
                 isDeleteMarker row = Some (v \<in> set (orEmpty (DeleteMarkers response)))"
      using f2 mk [of v] by simp
    have f3: "Size row = Some (case Size v of None \<Rightarrow> 0 | Some n \<Rightarrow> n)"
      using rw hv entry_fields [of env p v] by simp
    have f4: "otype row = Some TFile"
      using rw hv entry_fields [of env p v] by simp
    have f5: "Versions row = Some (map ?h (v # vs))"
      using rw hv hvs by simp
    show ?thesis
      using raw [symmetric] mx f1 f2 f2' f3 f4 f5 la by blast
  qed
  show ?thesis
    using t f d k rowp by blast
qed

text \<open>Scenario B: one row for \<open>doc.txt\<close>, a delete marker, with four versions.\<close>

theorem listAllVersions_groups_witness:
  "conformingSort (arraySort env0) \<and> isInitialized st0 \<and> wellShaped scenarioB \<and>
   thrown (listAllVersions env0 [] 1 False (Inr scenarioB) st0) = None \<and>
   mostRecentFirst env0 (keyGroup [] ''doc.txt'' (returnedEntries scenarioB)) =
     [docMarker, docVersion ''v3'' 3 300, docVersion ''v2'' 2 200, docVersion ''v1'' 5 100] \<and>
   map Key (files (final (listAllVersions env0 [] 1 False (Inr scenarioB) st0))) =
     [''doc.txt''] \<and>
   map isDeleteMarker (files (final (listAllVersions env0 [] 1 False (Inr scenarioB) st0))) =
     [Some True] \<and>
   map LastModified (files (final (listAllVersions env0 [] 1 False (Inr scenarioB) st0))) =
     [Some \<lparr>dateRef = 4, getTime = 400\<rparr>] \<and>
   map (map_option length \<circ> Versions)
     (files (final (listAllVersions env0 [] 1 False (Inr scenarioB) st0))) = [Some 4] \<and>
   map (map_option (map (\<lambda>e. (VersionId e, isDeleteMarker e, map_option getTime (LastModified e)))) \<circ>
        Versions)
     (files (final (listAllVersions env0 [] 1 False (Inr scenarioB) st0))) =
     [Some [(Some ''v4'', Some True, Some 400), (Some ''v3'', Some False, Some 300),
            (Some ''v2'', Some False, Some 200), (Some ''v1'', Some False, Some 100)]]"
proof -
  have c: "conformingSort (arraySort env0)"
    using conforming_insertionSort by (simp add: env0_def)
  from listAllVersions_groups [OF c st0_initialized, of "[]" 1 False scenarioB]
  have t: "thrown (listAllVersions env0 [] 1 False (Inr scenarioB) st0) = None"
    by blast
  show ?thesis
    using c st0_initialized t scenarioB_shape scenarioB_order
    by (simp add: scenarioB_files docRow_def)
qed

section \<open>The order of a listed page\<close>

lemma processFetchedObjects_folders_first:
  "\<exists>folders fs.
     files (processFetchedObjects env p contents cps st) = folders @ fs \<and>
     folders = map (prefixToFolder env p) (filter isPrefixDefined (orEmpty cps)) \<and>
     list_all (\<lambda>f. otype f = Some TFolder) folders \<and>
     list_all (\<lambda>f. otype f = Some TFile) fs \<and>
     fs = filter isFileVisible (map (asBrowserObject \<circ> makeFileRelative p)
            (arraySort env contentsCompare (orEmpty contents)))"
  by (auto simp: processFetchedObjects_def Let_def updateFiles_def list_all_iff
      prefixToFolder_def makeFileRelative_def asBrowserObject_def JsObject.extend_def)


lemma tie_compare:
  "contentsCompare tieA tieB = 1 \<and> contentsCompare tieB tieA = 1"
  by (simp add: contentsCompare_def tieA_def tieB_def storedObject_def)

lemma tie_inconsistent: "\<not> consistentComparator contentsCompare {tieA, tieB}"
proof
  assume c: "consistentComparator contentsCompare {tieA, tieB}"
  from c [unfolded consistentComparator_def]
  have "\<forall>a\<in>{tieA, tieB}. \<forall>b\<in>{tieA, tieB}.
      (contentsCompare a b < 0) = (contentsCompare b a > 0)"
    by (elim conjE)
  then have "(contentsCompare tieA tieB < 0) = (contentsCompare tieB tieA > 0)"
    by simp
  then show False
    using tie_compare by simp
qed

lemma tie_relative:
  "isFileVisible (asBrowserObject (makeFileRelative [] tieA)) \<and>
   isFileVisible (asBrowserObject (makeFileRelative [] tieB)) \<and>
   Key (asBrowserObject (makeFileRelative [] tieA)) = ''a.txt'' \<and>
   Key (asBrowserObject (makeFileRelative [] tieB)) = ''b.txt''"
  by (simp add: tieA_def tieB_def storedObject_def makeFileRelative_def asBrowserObject_def
      JsObject.extend_def isFileVisible_def sublist_code)

text \<open>
  C4 at two objects with the same modification time. The comparator compares the two
  \<open>Date\<close> objects with \<open>===\<close>, so it never returns 0 for two listed objects: on a tie it
  returns 1 whichever way it is asked, and is not a consistent comparator
  (\<open>tie_inconsistent\<close>). The order of the tie is then the engine's choice: the insertion sort puts \<open>b.txt\<close> before \<open>a.txt\<close>,
  the engine that inserts from the left keeps \<open>a.txt\<close> first.
\<close>

theorem processFetchedObjects_tie_order:
  "getTime (the (LastModified tieA)) = getTime (the (LastModified tieB)) \<and>
   contentsCompare tieA tieB = 1 \<and> contentsCompare tieB tieA = 1 \<and>
   map Key (files (processFetchedObjects env0 [] (Some [tieA, tieB]) None st0)) =
     [''b.txt'', ''a.txt''] \<and>
   map Key (files (processFetchedObjects (env0\<lparr>arraySort := leftInsertionSort\<rparr>) []
                     (Some [tieA, tieB]) None st0)) =
     [''a.txt'', ''b.txt'']"
proof -
  have t: "getTime (the (LastModified tieA)) = getTime (the (LastModified tieB))"
    by (simp add: tieA_def tieB_def storedObject_def)
  have s1: "arraySort env0 contentsCompare [tieA, tieB] = [tieB, tieA]"
    using tie_compare by (simp add: env0_def insertionSort_def)
  have s2: "arraySort (env0\<lparr>arraySort := leftInsertionSort\<rparr>) contentsCompare [tieA, tieB] =
            [tieA, tieB]"
    using tie_compare by (simp add: leftInsertionSort_def)
  have f1: "map Key (files (processFetchedObjects env0 [] (Some [tieA, tieB]) None st0)) =
     [''b.txt'', ''a.txt'']"
    unfolding processFetchedObjects_def Let_def orEmpty_def
    by (simp add: s1 [simplified] tie_relative updateFiles_def)
  have f2: "map Key (files (processFetchedObjects (env0\<lparr>arraySort := leftInsertionSort\<rparr>) []
                     (Some [tieA, tieB]) None st0)) = [''a.txt'', ''b.txt'']"
    unfolding processFetchedObjects_def Let_def orEmpty_def
    by (simp add: s2 [simplified] tie_relative updateFiles_def)
  show ?thesis
    using t tie_compare f1 f2 by simp
qed

section \<open>The upload chain is served in order\<close>

lemma chainOk_initial: "chainOk chainInitial"
  by (simp add: chainOk_def chainInitial_def)

lemma chainOkI:
  assumes "chainPromise s < length (promises s)"
    and "\<And>k. k < length (links s) \<Longrightarrow> chainedOn (links s ! k) < derived (links s ! k)"
    and "\<And>k. k < length (links s) \<Longrightarrow> derived (links s ! k) < length (promises s)"
    and "\<And>k k'. k < length (links s) \<Longrightarrow> k' < length (links s) \<Longrightarrow>
           derived (links s ! k) = derived (links s ! k') \<Longrightarrow> k = k'"
    and "\<And>k. k < length (links s) \<Longrightarrow> promises s ! derived (links s ! k) = Fulfilled \<Longrightarrow>
           stepState (links s ! k) = Ended"
    and "\<And>k. k < length (links s) \<Longrightarrow> begun (links s ! k) \<Longrightarrow>
           promises s ! chainedOn (links s ! k) = Fulfilled"
  shows "chainOk s"
  using assms unfolding chainOk_def by blast

lemma chainOkD:
  assumes "chainOk s"
  shows "chainPromise s < length (promises s)"
    and "\<And>k. k < length (links s) \<Longrightarrow> chainedOn (links s ! k) < derived (links s ! k)"
    and "\<And>k. k < length (links s) \<Longrightarrow> derived (links s ! k) < length (promises s)"
    and "\<And>k k'. k < length (links s) \<Longrightarrow> k' < length (links s) \<Longrightarrow>
           derived (links s ! k) = derived (links s ! k') \<Longrightarrow> k = k'"
    and "\<And>k. k < length (links s) \<Longrightarrow> promises s ! derived (links s ! k) = Fulfilled \<Longrightarrow>
           stepState (links s ! k) = Ended"
    and "\<And>k. k < length (links s) \<Longrightarrow> begun (links s ! k) \<Longrightarrow>
           promises s ! chainedOn (links s ! k) = Fulfilled"
  using assms unfolding chainOk_def by blast+

lemma chainOk_Enqueue:
  assumes inv: "chainOk s"
  shows "chainOk (s\<lparr>promises := promises s @ [Pending],
             chainPromise := length (promises s),
             links := links s @ [\<lparr>stepKey = key, chainedOn = chainPromise s,
                                  derived = length (promises s), stepState = Waiting\<rparr>]\<rparr>)"
proof (rule chainOkI)
  note d = chainOkD [OF inv]
  let ?new = "\<lparr>stepKey = key, chainedOn = chainPromise s,
                derived = length (promises s), stepState = Waiting\<rparr>"
  let ?s' = "s\<lparr>promises := promises s @ [Pending],
             chainPromise := length (promises s), links := links s @ [?new]\<rparr>"
  have old: "links ?s' ! k = links s ! k" if "k < length (links s)" for k
    using that by (simp add: nth_append)
  have new: "links ?s' ! k = ?new" if "k < length (links ?s')" "\<not> k < length (links s)" for k
    using that by (simp add: nth_append)
  have dlt: "derived (links ?s' ! k) \<le> length (promises s)" if "k < length (links ?s')" for k
    using that d(3) [of k] old [of k] new [of k] by (cases "k < length (links s)") auto
  show "chainPromise ?s' < length (promises ?s')" by simp
  show "chainedOn (links ?s' ! k) < derived (links ?s' ! k)" if "k < length (links ?s')" for k
    using that d(1) d(2) [of k] old [of k] new [of k] by (cases "k < length (links s)") auto
  show "derived (links ?s' ! k) < length (promises ?s')" if "k < length (links ?s')" for k
    using dlt [OF that] by simp
  show "k = k'" if "k < length (links ?s')" "k' < length (links ?s')"
    "derived (links ?s' ! k) = derived (links ?s' ! k')" for k k'
  proof (cases "k < length (links s)")
    case True
    note kt = True
    show ?thesis
    proof (cases "k' < length (links s)")
      case True
      then show ?thesis using that kt old d(4) [of k k'] by simp
    next
      case False
      then show ?thesis using that kt old [of k] new [of k'] d(3) [of k] by simp
    qed
  next
    case False
    note kf = False
    show ?thesis
    proof (cases "k' < length (links s)")
      case True
      then show ?thesis using that kf old [of k'] new [of k] d(3) [of k'] by simp
    next
      case False
      then show ?thesis using that kf by simp
    qed
  qed
  show "stepState (links ?s' ! k) = Ended"
    if "k < length (links ?s')" "promises ?s' ! derived (links ?s' ! k) = Fulfilled" for k
  proof (cases "k < length (links s)")
    case True
    then show ?thesis using that d(3) [of k] d(5) [of k] old [of k] by (simp add: nth_append)
  next
    case False
    then show ?thesis using that new [of k] by (simp add: nth_append)
  qed
  show "promises ?s' ! chainedOn (links ?s' ! k) = Fulfilled"
    if "k < length (links ?s')" "begun (links ?s' ! k)" for k
  proof (cases "k < length (links s)")
    case True
    then have "chainedOn (links s ! k) < length (promises s)"
      using d(2) [of k] d(3) [of k] by simp
    then show ?thesis using True that d(6) [of k] old [of k] by (simp add: nth_append)
  next
    case False
    then show ?thesis using that new [of k] by (simp add: begun_def)
  qed
qed

lemma chainOk_Clear:
  assumes inv: "chainOk s"
  shows "chainOk (s\<lparr>promises := promises s @ [Fulfilled], chainPromise := length (promises s)\<rparr>)"
proof (rule chainOkI)
  note d = chainOkD [OF inv]
  let ?s' = "s\<lparr>promises := promises s @ [Fulfilled], chainPromise := length (promises s)\<rparr>"
  show "chainPromise ?s' < length (promises ?s')" by simp
  show "chainedOn (links ?s' ! k) < derived (links ?s' ! k)" if "k < length (links ?s')" for k
    using that d(2) [of k] by simp
  show "derived (links ?s' ! k) < length (promises ?s')" if "k < length (links ?s')" for k
    using that d(3) [of k] by simp
  show "k = k'" if "k < length (links ?s')" "k' < length (links ?s')"
    "derived (links ?s' ! k) = derived (links ?s' ! k')" for k k'
    using that d(4) [of k k'] by simp
  show "stepState (links ?s' ! k) = Ended"
    if "k < length (links ?s')" "promises ?s' ! derived (links ?s' ! k) = Fulfilled" for k
    using that d(3) [of k] d(5) [of k] by (simp add: nth_append)
  show "promises ?s' ! chainedOn (links ?s' ! k) = Fulfilled"
    if "k < length (links ?s')" "begun (links ?s' ! k)" for k
  proof -
    have "chainedOn (links s ! k) < length (promises s)"
      using that d(2) [of k] d(3) [of k] by simp
    then show ?thesis using that d(6) [of k] by (simp add: nth_append)
  qed
qed

lemma chainOk_Begin:
  assumes inv: "chainOk s" and i: "i < length (links s)"
    and w: "stepState (links s ! i) = Waiting"
    and f: "promises s ! chainedOn (links s ! i) = Fulfilled"
  shows "chainOk (s\<lparr>links := (links s)[i := (links s ! i)\<lparr>stepState := Running\<rparr>]\<rparr>)"
proof (rule chainOkI)
  note d = chainOkD [OF inv]
  let ?s' = "s\<lparr>links := (links s)[i := (links s ! i)\<lparr>stepState := Running\<rparr>]\<rparr>"
  have c: "chainedOn (links ?s' ! k) = chainedOn (links s ! k)" if "k < length (links s)" for k
    using that by (cases "k = i") (simp_all add: nth_list_update)
  have e: "derived (links ?s' ! k) = derived (links s ! k)" if "k < length (links s)" for k
    using that by (cases "k = i") (simp_all add: nth_list_update)
  show "chainPromise ?s' < length (promises ?s')" using d(1) by simp
  show "chainedOn (links ?s' ! k) < derived (links ?s' ! k)" if "k < length (links ?s')" for k
    using that d(2) [of k] c [of k] e [of k] by simp
  show "derived (links ?s' ! k) < length (promises ?s')" if "k < length (links ?s')" for k
    using that d(3) [of k] e [of k] by simp
  show "k = k'" if "k < length (links ?s')" "k' < length (links ?s')"
    "derived (links ?s' ! k) = derived (links ?s' ! k')" for k k'
    using that d(4) [of k k'] e [of k] e [of k'] by simp
  show "stepState (links ?s' ! k) = Ended"
    if "k < length (links ?s')" "promises ?s' ! derived (links ?s' ! k) = Fulfilled" for k
  proof (cases "k = i")
    case True
    then have "stepState (links s ! i) = Ended" using that d(5) [of i] e [of i] by simp
    then show ?thesis using w by simp
  next
    case False
    then show ?thesis using that d(5) [of k] e [of k] by (simp add: nth_list_update)
  qed
  show "promises ?s' ! chainedOn (links ?s' ! k) = Fulfilled"
    if "k < length (links ?s')" "begun (links ?s' ! k)" for k
  proof (cases "k = i")
    case True
    then show ?thesis using f i c [of i] by simp
  next
    case False
    then show ?thesis using that d(6) [of k] c [of k] by (simp add: nth_list_update)
  qed
qed

lemma chainOk_settle:
  assumes inv: "chainOk s" and i: "i < length (links s)"
    and nb: "stepState (links s ! i) \<noteq> Ended"
    and st: "st = Ended \<or> (st = Skipped \<and> ps = Rejected)"
    and run: "st = Ended \<longrightarrow> stepState (links s ! i) = Running"
  shows "chainOk (s\<lparr>links := (links s)[i := (links s ! i)\<lparr>stepState := st\<rparr>],
                   promises := (promises s)[derived (links s ! i) := ps]\<rparr>)"
proof (rule chainOkI)
  note d = chainOkD [OF inv]
  let ?s' = "s\<lparr>links := (links s)[i := (links s ! i)\<lparr>stepState := st\<rparr>],
                   promises := (promises s)[derived (links s ! i) := ps]\<rparr>"
  have c: "chainedOn (links ?s' ! k) = chainedOn (links s ! k)" if "k < length (links s)" for k
    using that by (cases "k = i") (simp_all add: nth_list_update)
  have e: "derived (links ?s' ! k) = derived (links s ! k)" if "k < length (links s)" for k
    using that by (cases "k = i") (simp_all add: nth_list_update)
  have di: "derived (links s ! i) < length (promises s)" using d(3) [OF i] .
  show "chainPromise ?s' < length (promises ?s')" using d(1) by simp
  show "chainedOn (links ?s' ! k) < derived (links ?s' ! k)" if "k < length (links ?s')" for k
    using that d(2) [of k] c [of k] e [of k] by simp
  show "derived (links ?s' ! k) < length (promises ?s')" if "k < length (links ?s')" for k
    using that d(3) [of k] e [of k] by simp
  show "k = k'" if "k < length (links ?s')" "k' < length (links ?s')"
    "derived (links ?s' ! k) = derived (links ?s' ! k')" for k k'
    using that d(4) [of k k'] e [of k] e [of k'] by simp
  show "stepState (links ?s' ! k) = Ended"
    if "k < length (links ?s')" "promises ?s' ! derived (links ?s' ! k) = Fulfilled" for k
  proof (cases "k = i")
    case True
    then have "ps = Fulfilled" using that e [of i] i di by simp
    then have "st = Ended" using st by auto
    then show ?thesis using True i by simp
  next
    case False
    then have ne: "derived (links s ! k) \<noteq> derived (links s ! i)"
      using d(4) [of k i] that(1) i by auto
    then have "promises s ! derived (links s ! k) = Fulfilled"
      using that e [of k] by (simp add: nth_list_update)
    then show ?thesis using False that(1) d(5) [of k] by (simp add: nth_list_update)
  qed
  show "promises ?s' ! chainedOn (links ?s' ! k) = Fulfilled"
    if "k < length (links ?s')" "begun (links ?s' ! k)" for k
  proof -
    have kl: "k < length (links s)" using that by simp
    have b: "begun (links s ! k)"
    proof (cases "k = i")
      case True
      then have "st = Ended" using that i st by (auto simp: begun_def)
      then show ?thesis using run True by (simp add: begun_def)
    next
      case False
      then show ?thesis using that by (simp add: nth_list_update)
    qed
    have pk: "promises s ! chainedOn (links s ! k) = Fulfilled" using d(6) [OF kl b] .
    have "chainedOn (links s ! k) \<noteq> derived (links s ! i)"
    proof
      assume "chainedOn (links s ! k) = derived (links s ! i)"
      then have "stepState (links s ! i) = Ended" using pk d(5) [OF i] by simp
      then show False using nb by simp
    qed
    then show ?thesis using pk c [OF kl] by (simp add: nth_list_update)
  qed
qed

lemma chainOk_step:
  assumes "chainOk s" and "chainStep e s = Some s'"
  shows "chainOk s'"
proof (cases e)
  case (Enqueue key)
  then show ?thesis
    using assms chainOk_Enqueue [OF assms(1), of key] by simp
next
  case ClearStore
  then show ?thesis using assms chainOk_Clear [OF assms(1)] by simp
next
  case (Begin i)
  then show ?thesis
    using assms chainOk_Begin [OF assms(1), of i] by (simp split: if_splits)
next
  case (Finish i ok)
  then show ?thesis
    using assms
      chainOk_settle [OF assms(1), of i Ended "if ok then Fulfilled else Rejected"]
    by (simp split: if_splits)
next
  case (Skip i)
  then show ?thesis
    using assms chainOk_settle [OF assms(1), of i Skipped Rejected]
    by (simp split: if_splits)
qed

lemma chainOk_run:
  "chainOk s \<Longrightarrow> chainRun es s = Some s' \<Longrightarrow> chainOk s'"
proof (induction es arbitrary: s)
  case Nil
  then show ?case by simp
next
  case (Cons e es)
  from Cons.prems obtain s1 where s1: "chainStep e s = Some s1" and r: "chainRun es s1 = Some s'"
    by (auto split: option.splits)
  show ?case
    using Cons.IH [OF chainOk_step [OF Cons.prems(1) s1] r] .
qed

text \<open>A step never changes what a link is chained on or settles, and never removes a link.\<close>

lemma chainStep_links:
  assumes "chainStep e s = Some s'"
  shows "length (links s) \<le> length (links s') \<and>
         (\<forall>k<length (links s). chainedOn (links s' ! k) = chainedOn (links s ! k) \<and>
                                derived (links s' ! k) = derived (links s ! k))"
proof -
  have u: "chainedOn ((xs[i := (xs ! i)\<lparr>stepState := x\<rparr>]) ! k) = chainedOn (xs ! k) \<and>
           derived ((xs[i := (xs ! i)\<lparr>stepState := x\<rparr>]) ! k) = derived (xs ! k)"
    if "k < length xs" for xs :: "ChainLink list" and i k x
    using that by (cases "k = i") (simp_all add: nth_list_update)
  show ?thesis
  proof (cases e)
    case (Enqueue key)
    then show ?thesis using assms by (auto simp: nth_append)
  next
    case ClearStore
    then show ?thesis using assms by auto
  next
    case (Begin i)
    then show ?thesis using assms u by (auto split: if_splits)
  next
    case (Finish i ok)
    then show ?thesis using assms u by (auto split: if_splits)
  next
    case (Skip i)
    then show ?thesis using assms u by (auto split: if_splits)
  qed
qed

lemma chainedInOrder_step:
  assumes "chainedInOrder n m s" and "chainStep e s = Some s'"
  shows "chainedInOrder n m s'"
proof -
  note l = chainStep_links [OF assms(2)]
  have m: "m \<le> length (links s)" using assms(1) by (simp add: chainedInOrder_def)
  have "chainedOn (links s' ! Suc k) = derived (links s' ! k)" if "n \<le> k" "Suc k < m" for k
  proof -
    have "chainedOn (links s ! Suc k) = derived (links s ! k)"
      using assms(1) that by (simp add: chainedInOrder_def)
    moreover have "Suc k < length (links s)" "k < length (links s)" using that m by simp_all
    ultimately show ?thesis using l by simp
  qed
  then show ?thesis using m l by (simp add: chainedInOrder_def)
qed

lemma chainedInOrder_run:
  "chainedInOrder n m s \<Longrightarrow> chainRun es s = Some s' \<Longrightarrow> chainedInOrder n m s'"
proof (induction es arbitrary: s)
  case Nil
  then show ?case by simp
next
  case (Cons e es)
  from Cons.prems obtain s1 where s1: "chainStep e s = Some s1" and r: "chainRun es s1 = Some s'"
    by (auto split: option.splits)
  show ?case
    using Cons.IH [OF chainedInOrder_step [OF Cons.prems(1) s1] r] .
qed

lemma chainTail_step:
  assumes "chainTail n s" and "e \<noteq> ClearStore" and "chainStep e s = Some s'"
  shows "chainTail n s'"
proof (cases e)
  case (Enqueue key)
  let ?new = "\<lparr>stepKey = key, chainedOn = chainPromise s,
                derived = length (promises s), stepState = Waiting\<rparr>"
  have s': "s' = s\<lparr>promises := promises s @ [Pending],
             chainPromise := length (promises s), links := links s @ [?new]\<rparr>"
    using assms(3) Enqueue by simp
  have o: "chainedInOrder n (length (links s)) s"
    and t: "n < length (links s) \<Longrightarrow>
            chainPromise s = derived (links s ! (length (links s) - 1))"
    using assms(1) by (simp_all add: chainTail_def)
  have "chainedOn (links s' ! Suc k) = derived (links s' ! k)"
    if "n \<le> k" "Suc k < length (links s')" for k
  proof (cases "Suc k < length (links s)")
    case True
    then show ?thesis using o that unfolding s' by (simp add: chainedInOrder_def nth_append)
  next
    case False
    then have k: "Suc k = length (links s)" using that unfolding s' by simp
    then have "n < length (links s)" using that by simp
    moreover have "k = length (links s) - 1" using k by simp
    ultimately have "chainPromise s = derived (links s ! k)" using t by simp
    then show ?thesis using k unfolding s' by (simp add: nth_append)
  qed
  moreover have "chainPromise s' = derived (links s' ! (length (links s') - 1))"
    unfolding s' by simp
  ultimately show ?thesis by (simp add: chainTail_def chainedInOrder_def)
next
  case ClearStore
  then show ?thesis using assms by simp
next
  case (Begin i)
  note l = chainStep_links [OF assms(3)]
  have len: "length (links s') = length (links s)" and cp: "chainPromise s' = chainPromise s"
    using assms(3) Begin by (auto split: if_splits)
  have "chainedInOrder n (length (links s)) s'"
    using chainedInOrder_step [OF _ assms(3)] assms(1) by (simp add: chainTail_def)
  then show ?thesis
    using assms(1) l len cp by (auto simp: chainTail_def)
next
  case (Finish i ok)
  note l = chainStep_links [OF assms(3)]
  have len: "length (links s') = length (links s)" and cp: "chainPromise s' = chainPromise s"
    using assms(3) Finish by (auto split: if_splits)
  have "chainedInOrder n (length (links s)) s'"
    using chainedInOrder_step [OF _ assms(3)] assms(1) by (simp add: chainTail_def)
  then show ?thesis
    using assms(1) l len cp by (auto simp: chainTail_def)
next
  case (Skip i)
  note l = chainStep_links [OF assms(3)]
  have len: "length (links s') = length (links s)" and cp: "chainPromise s' = chainPromise s"
    using assms(3) Skip by (auto split: if_splits)
  have "chainedInOrder n (length (links s)) s'"
    using chainedInOrder_step [OF _ assms(3)] assms(1) by (simp add: chainTail_def)
  then show ?thesis
    using assms(1) l len cp by (auto simp: chainTail_def)
qed

lemma chainTail_run:
  "chainTail n s \<Longrightarrow> ClearStore \<notin> set es \<Longrightarrow> chainRun es s = Some s' \<Longrightarrow> chainTail n s'"
proof (induction es arbitrary: s)
  case Nil
  then show ?case by simp
next
  case (Cons e es)
  from Cons.prems obtain s1 where s1: "chainStep e s = Some s1" and r: "chainRun es s1 = Some s'"
    by (auto split: option.splits)
  have "chainTail n s1"
    using chainTail_step [OF Cons.prems(1) _ s1] Cons.prems(2) by auto
  then show ?case
    using Cons.IH [OF _ _ r] Cons.prems(2) by simp
qed

lemma chainTail_start: "chainTail (length (links s)) s"
  by (simp add: chainTail_def chainedInOrder_def)

lemma chain_fifo:
  assumes ok: "chainOk s" and o: "chainedInOrder n m s"
  shows "j < m \<Longrightarrow> begun (links s ! j) \<Longrightarrow> n \<le> i \<Longrightarrow> i < j \<Longrightarrow>
         stepState (links s ! i) = Ended"
proof (induction j arbitrary: i)
  case 0
  then show ?case by simp
next
  case (Suc j)
  note d = chainOkD [OF ok]
  have m: "m \<le> length (links s)" using o by (simp add: chainedInOrder_def)
  have sl: "Suc j < length (links s)" and jl: "j < length (links s)"
    using Suc.prems m by simp_all
  have "chainedOn (links s ! Suc j) = derived (links s ! j)"
    using o Suc.prems by (simp add: chainedInOrder_def)
  then have f: "promises s ! derived (links s ! j) = Fulfilled"
    using d(6) [OF sl Suc.prems(2)] by simp
  have e: "stepState (links s ! j) = Ended"
    using d(5) [OF jl f] .
  show ?case
  proof (cases "i = j")
    case True
    then show ?thesis using e by simp
  next
    case False
    then have "i < j" using Suc.prems by simp
    moreover have "begun (links s ! j)" using e by (simp add: begun_def)
    moreover have "j < m" using Suc.prems by simp
    ultimately show ?thesis using Suc.IH Suc.prems(3) by simp
  qed
qed

text \<open>
  \<open>clear\<close> puts a fresh, fulfilled promise in \<open>uploadChain\<close>. An upload enqueued after it
  is chained on that promise, and its step begins while the step of an upload enqueued
  before the \<open>clear\<close> is still running. And without a \<open>clear\<close> the step of the second of
  two uploads, which is what awaits its transfer, cannot begin while the step of the first
  is running: the transfers of the two are not awaited side by side.
\<close>

theorem uploadChain_clear_counterexample:
  "chainRun [Enqueue ''a'', Begin 0, ClearStore, Enqueue ''b'', Begin 1] chainInitial =
     Some chainAfterClear \<and>
   length (links chainAfterClear) = 2 \<and>
   begun (links chainAfterClear ! 1) \<and> stepState (links chainAfterClear ! 0) = Running \<and>
   stepState (links chainAfterClear ! 0) \<noteq> Ended \<and>
   chainRun [Enqueue ''a'', Enqueue ''b'', Begin 0, Begin 1] chainInitial = None"
  by (simp add: chainInitial_def chainAfterClear_def begun_def)

text \<open>
  C7, amended. Whatever happened to the chain before, a \<open>clear\<close> included, and whatever
  happens after: of two uploads enqueued in this order with no \<open>clear\<close> from the first to
  the second, the completion step of the later one begins only when the completion step
  of the earlier one has run to its end.
\<close>

theorem uploadChain_fifo:
  assumes "chainRun es1 chainInitial = Some s1"
    and "ClearStore \<notin> set es2" and "chainRun es2 s1 = Some s2"
    and "chainRun es3 s2 = Some s"
    and "length (links s1) \<le> i" and "i < j" and "j < length (links s2)"
    and "begun (links s ! j)"
  shows "stepState (links s ! i) = Ended"
proof -
  have ok: "chainOk s"
    using chainOk_run [OF chainOk_run [OF chainOk_run [OF chainOk_initial assms(1)] assms(3)]
        assms(4)] .
  have "chainTail (length (links s1)) s2"
    using chainTail_run [OF chainTail_start assms(2,3)] .
  then have "chainedInOrder (length (links s1)) (length (links s2)) s2"
    by (simp add: chainTail_def)
  then have o: "chainedInOrder (length (links s1)) (length (links s2)) s"
    using assms(4) by (rule chainedInOrder_run)
  show ?thesis
    using chain_fifo [OF ok o assms(7,8,5,6)] .
qed

theorem uploadChain_fifo_witness:
  "chainRun [ClearStore] chainInitial = Some chainCleared \<and>
   ClearStore \<notin> set [Enqueue ''a'', Enqueue ''b''] \<and>
   chainRun [Enqueue ''a'', Enqueue ''b''] chainCleared = Some chainTwoEnqueued \<and>
   chainRun [Begin 0, Finish 0 True, Begin 1] chainTwoEnqueued = Some chainAfterTwo \<and>
   length (links chainCleared) \<le> 0 \<and> (0::nat) < 1 \<and> 1 < length (links chainTwoEnqueued) \<and>
   begun (links chainAfterTwo ! 1) \<and>
   stepState (links chainAfterTwo ! 0) = Ended"
proof -
  have r1: "chainRun [ClearStore] chainInitial = Some chainCleared"
    by (simp add: chainInitial_def chainCleared_def)
  have c: "ClearStore \<notin> set [Enqueue ''a'', Enqueue ''b'']" by simp
  have r2: "chainRun [Enqueue ''a'', Enqueue ''b''] chainCleared = Some chainTwoEnqueued"
    by (simp add: chainCleared_def chainTwoEnqueued_def)
  have r3: "chainRun [Begin 0, Finish 0 True, Begin 1] chainTwoEnqueued = Some chainAfterTwo"
    by (simp add: chainTwoEnqueued_def chainAfterTwo_def)
  have l1: "length (links chainCleared) \<le> 0" by (simp add: chainCleared_def)
  have l2: "1 < length (links chainTwoEnqueued)" by (simp add: chainTwoEnqueued_def)
  have b: "begun (links chainAfterTwo ! 1)" by (simp add: chainAfterTwo_def begun_def)
  have "stepState (links chainAfterTwo ! 0) = Ended"
    using uploadChain_fifo [OF r1 c r2 r3 l1 _ l2 b] by simp
  then show ?thesis
    using r1 c r2 r3 l1 l2 b by simp
qed

section \<open>What the actions do to the upload list and the pending deletions\<close>

lemma final_returns [simp]: "final (returns st cs) = st"
  by (simp add: returns_def)

lemma final_throws [simp]: "final (throws e st cs) = st"
  by (simp add: throws_def)

lemma thrown_returns [simp]: "thrown (returns st cs) = None"
  by (simp add: returns_def)

lemma thrown_throws [simp]: "thrown (throws e st cs) = Some e"
  by (simp add: throws_def)

lemma final_andThen:
  "final (andThen r f) = (case thrown r of Some e \<Rightarrow> final r | None \<Rightarrow> final (f (final r)))"
  by (simp add: andThen_def Let_def split: option.splits)

lemma thrown_andThen:
  "thrown (andThen r f) = (case thrown r of Some e \<Rightarrow> Some e | None \<Rightarrow> thrown (f (final r)))"
  by (simp add: andThen_def Let_def split: option.splits)

lemma uploadsAreFiles_andThen:
  "uploadsAreFiles (final r) \<Longrightarrow>
   (\<And>s. uploadsAreFiles s \<Longrightarrow> uploadsAreFiles (final (f s))) \<Longrightarrow>
   uploadsAreFiles (final (andThen r f))"
  by (simp add: final_andThen split: option.splits)

lemma sameQueues_refl [simp]: "sameQueues st st"
  by (simp add: sameQueues_def)

lemma sameQueues_trans: "sameQueues a b \<Longrightarrow> sameQueues b c \<Longrightarrow> sameQueues a c"
  by (simp add: sameQueues_def)

lemma sameQueues_processFetchedObjects:
  "sameQueues st (processFetchedObjects env p contents cps st)"
  by (simp add: sameQueues_def processFetchedObjects_def Let_def updateFiles_def)

lemma sameQueues_drainPages:
  "drainPages env p pages it kc st = (e, k, s, n) \<Longrightarrow> sameQueues st s"
proof (induction pages arbitrary: it kc st e k s n)
  case Nil
  then show ?case by simp
next
  case (Cons a pages)
  show ?case
  proof (cases a)
    case (Inl x)
    then show ?thesis using Cons.prems by simp
  next
    case (Inr r)
    let ?st1 = "(if it = 1
                 then (processFetchedObjects env p (Contents r) (CommonPrefixes r) st)
                        \<lparr>activeObjectsRange := \<lparr>rangeStart = 1, rangeEnd = MAX_KEY_COUNT\<rparr>\<rparr>
                 else st)"
    have q1: "sameQueues st ?st1"
      using sameQueues_processFetchedObjects [of st env p "Contents r" "CommonPrefixes r"]
      by (simp add: sameQueues_def)
    show ?thesis
    proof (cases "truthy (NextContinuationToken r)")
      case False
      then have "s = ?st1" using Cons.prems Inr by (simp add: Let_def)
      then show ?thesis using q1 by simp
    next
      case True
      let ?st2 = "?st1\<lparr>continuationTokens := AList.update (MAX_KEY_COUNT * (it + 1))
               (orBlank (NextContinuationToken r)) (continuationTokens ?st1)\<rparr>"
      obtain e' k' s' n' where d:
        "drainPages env p pages (it + 1) (kc + keyCountOf r) ?st2 = (e', k', s', n')"
        by (metis prod_cases4)
      from Cons.prems Inr True d have eq: "s' = s"
        by (simp add: Let_def keyCountOf_def)
      have "sameQueues ?st2 s"
        using Cons.IH [OF d] eq by simp
      moreover have "sameQueues st ?st2"
        using q1 by (simp add: sameQueues_def)
      ultimately show ?thesis by (rule sameQueues_trans [rotated])
    qed
  qed
qed

lemma sameQueues_initList: "sameQueues st (final (initList env p pages st))"
proof (cases "isInitialized st")
  case False
  then show ?thesis by (simp add: initList_def)
next
  case True
  obtain e k s n where d: "drainPages env p pages 1 0 st = (e, k, s, n)"
    by (metis prod_cases4)
  have "sameQueues st s" using sameQueues_drainPages [OF d] .
  then show ?thesis
    using True d by (cases e) (simp_all add: initList_def sameQueues_def)
qed

lemma sameQueues_listByToken: "sameQueues st (final (listByToken env p n tok out st))"
  using sameQueues_processFetchedObjects
  by (cases out) (simp_all add: listByToken_def sameQueues_def)

lemma sameQueues_listCustom: "sameQueues st (final (listCustom env p pg sv out st))"
  using sameQueues_processFetchedObjects
  by (cases out) (simp_all add: listCustom_def sameQueues_def Let_def)

lemma sameQueues_listAllVersions:
  "sameQueues st (final (listAllVersions env p pg sv out st))"
proof (cases out)
  case (Inl e)
  then show ?thesis by (simp add: listAllVersions_def sameQueues_def Let_def)
next
  case (Inr response)
  show ?thesis
  proof (cases "latestObjects env (groupItems env p
      (orEmpty (respVersions response) @ orEmpty (DeleteMarkers response)) [])")
    case (Inl e)
    then show ?thesis using Inr by (simp add: listAllVersions_def sameQueues_def Let_def)
  next
    case r: (Inr kr)
    obtain keys rows where "kr = (keys, rows)" by (cases kr)
    then show ?thesis
      using Inr r
      by (simp add: listAllVersions_def sameQueues_def Let_def updateFiles_def
          updateVersionsExpandedKeys_def)
  qed
qed

lemma sameQueues_refreshListing: "sameQueues st (final (refreshListing env be st))"
proof -
  have c: "sameQueues st (clearTokens st)" by (simp add: sameQueues_def clearTokens_def)
  show ?thesis
    unfolding refreshListing_def Let_def
    using sameQueues_trans [OF c sameQueues_listAllVersions]
      sameQueues_trans [OF c sameQueues_listCustom] sameQueues_initList
    by simp
qed

lemma uploadsAreFiles_sameQueues: "sameQueues st st' \<Longrightarrow> uploadsAreFiles st \<Longrightarrow> uploadsAreFiles st'"
  by (simp add: sameQueues_def uploadsAreFiles_def)

lemma uploadsAreFiles_refreshListing:
  "uploadsAreFiles st \<Longrightarrow> uploadsAreFiles (final (refreshListing env be st))"
  by (rule uploadsAreFiles_sameQueues [OF sameQueues_refreshListing])

lemma list_all_removeFirst: "list_all P xs \<Longrightarrow> list_all P (removeFirst Q xs)"
  by (induction xs) auto

lemma list_all_updateFirst:
  "list_all P xs \<Longrightarrow> (\<And>x. P x \<Longrightarrow> P (g x)) \<Longrightarrow> list_all P (updateFirst Q g xs)"
  by (induction xs) auto

lemma uploadsAreFiles_enqueueUpload:
  "uploadsAreFiles st \<Longrightarrow> uploadsAreFiles (final (enqueueUpload env key body st))"
  by (simp add: enqueueUpload_def uploadsAreFiles_def Let_def list_all_removeFirst
      uploadingObject_def)

lemma uploadsAreFiles_enqueueAll:
  "uploadsAreFiles st \<Longrightarrow> uploadsAreFiles (final (enqueueAll env fs st))"
proof (induction fs arbitrary: st)
  case Nil
  then show ?case by simp
next
  case (Cons a fs)
  obtain p f0 where a: "a = (p, f0)" by (cases a)
  show ?case
    unfolding a enqueueAll.simps
    by (rule uploadsAreFiles_andThen) (simp_all add: uploadsAreFiles_enqueueUpload Cons)
qed

lemma uploadsAreFiles_upload:
  "uploadsAreFiles st \<Longrightarrow> uploadsAreFiles (final (upload env traversed ign st))"
  by (simp add: upload_def uploadsAreFiles_enqueueAll split: prod.splits)

lemma handleUploadError_otype: "otype (fst (handleUploadError f err)) = otype f"
  by (simp add: handleUploadError_def)

lemma uploadsAreFiles_uploadStep:
  assumes "uploadsAreFiles st"
  shows "uploadsAreFiles (final (uploadStep env be key settled st))"
proof -
  let ?isItem = "\<lambda>f. Key f = key \<and> status f \<noteq> Cancelled"
  have a: "uploadsAreFiles (st\<lparr>uploading := updateFirst ?isItem g (uploading st)\<rparr>)"
    if "\<And>x. otype (g x) = otype x" for g
    using assms that by (simp add: uploadsAreFiles_def list_all_updateFirst)
  have f: "uploadsAreFiles (st\<lparr>uploading :=
      updateFirst ?isItem (\<lambda>f. f\<lparr>status := Finished\<rparr>) (uploading st)\<rparr>)"
    by (rule a) simp
  have h: "uploadsAreFiles (st\<lparr>uploading :=
      updateFirst ?isItem (\<lambda>f. fst (handleUploadError f err)) (uploading st)\<rparr>)" for err
    by (rule a) (rule handleUploadError_otype)
  have r: "uploadsAreFiles (final (andThen (refreshListing env be
        (st\<lparr>uploading := updateFirst ?isItem (\<lambda>f. f\<lparr>status := Finished\<rparr>) (uploading st)\<rparr>))
      (\<lambda>s. returns (if length (filter (\<lambda>f. otype f = Some TFile) (files s)) = 1 \<and>
                         CHR ''/'' \<notin> set key \<and> openModalOnFirstUpload s
                      then s\<lparr>objectPathForModal := key\<rparr> else s) [])))"
  proof (rule uploadsAreFiles_andThen)
    show "uploadsAreFiles (final (refreshListing env be
        (st\<lparr>uploading := updateFirst ?isItem (\<lambda>f. f\<lparr>status := Finished\<rparr>) (uploading st)\<rparr>)))"
      by (rule uploadsAreFiles_sameQueues [OF sameQueues_refreshListing f])
  next
    fix s
    assume "uploadsAreFiles s"
    then show "uploadsAreFiles (final (returns
        (if length (filter (\<lambda>f. otype f = Some TFile) (files s)) = 1 \<and>
            CHR ''/'' \<notin> set key \<and> openModalOnFirstUpload s
         then s\<lparr>objectPathForModal := key\<rparr> else s) []))"
      by (simp add: uploadsAreFiles_def)
  qed
  show ?thesis
  proof (cases "find ?isItem (uploading st)")
    case None
    then show ?thesis using assms by (simp add: uploadStep_def Let_def)
  next
    case (Some item)
    show ?thesis
    proof (cases settled)
      case None
      then show ?thesis using Some r by (simp add: uploadStep_def Let_def)
    next
      case (Some err)
      then show ?thesis using \<open>find ?isItem (uploading st) = Some item\<close> h [of err]
        by (simp add: uploadStep_def Let_def)
    qed
  qed
qed

lemma uploadsAreFiles_cancelUpload:
  "uploadsAreFiles st \<Longrightarrow> uploadsAreFiles (final (cancelUpload key st))"
  by (simp add: cancelUpload_def uploadsAreFiles_def list_all_updateFirst split: option.splits)

lemma removeFile_queues:
  "uploading (removeFile file st) = uploading st \<and>
   filesToBeDeleted (removeFile file st) = filesToBeDeleted st - {compositeKey file}"
  by (simp add: removeFile_def)

lemma addFileToBeDeleted_uploading:
  "uploading (addFileToBeDeleted fs st) = uploading st"
  by (simp add: addFileToBeDeleted_def)

lemma uploadsAreFiles_filter:
  "uploadsAreFiles st \<Longrightarrow> uploadsAreFiles (st\<lparr>uploading := filter Q (uploading st)\<rparr>)"
  by (simp add: uploadsAreFiles_def list_all_iff)

lemma uploadsAreFiles_removeFile:
  "uploadsAreFiles st \<Longrightarrow> uploadsAreFiles (removeFile file st)"
  by (simp add: uploadsAreFiles_def removeFile_queues)

lemma uploadsAreFiles_addFileToBeDeleted:
  "uploadsAreFiles st \<Longrightarrow> uploadsAreFiles (addFileToBeDeleted fs st)"
  by (simp add: uploadsAreFiles_def addFileToBeDeleted_uploading)

lemma uploadsAreFiles_deleteObject:
  assumes "uploadsAreFiles st"
  shows "uploadsAreFiles (final (deleteObject env be p fo isf sr st))"
proof (cases fo)
  case None
  then show ?thesis using assms by (simp add: deleteObject_def)
next
  case (Some f0)
  let ?st1 = "if \<not> isf then addFileToBeDeleted [f0] st else st"
  let ?st2 = "?st1\<lparr>uploading := filter (\<lambda>f. Key f \<noteq> p @ Key f0) (uploading ?st1)\<rparr>"
  have u1: "uploadsAreFiles ?st1"
    using assms by (simp add: uploadsAreFiles_addFileToBeDeleted)
  have u2: "uploadsAreFiles ?st2"
    using u1 by (rule uploadsAreFiles_filter)
  have c: "uploadsAreFiles (final (andThen
             (andThen (returns ?st2 cs)
                (\<lambda>s. if sr then refreshListing env be s else returns s []))
             (\<lambda>s. returns (removeFile f0 s) [])))" for cs
    by (intro uploadsAreFiles_andThen)
      (simp_all add: u2 uploadsAreFiles_refreshListing uploadsAreFiles_removeFile)
  show ?thesis
  proof (cases "isInitialized st")
    case False
    then show ?thesis using Some assms by (simp add: deleteObject_def)
  next
    case True
    show ?thesis
    proof (cases "deleteAnswer be (p @ Key f0) (VersionId f0)")
      case (Some e)
      then show ?thesis
        using \<open>fo = Some f0\<close> True u1 by (simp add: deleteObject_def Let_def)
    next
      case None
      show ?thesis
      proof (cases isf)
        case True
        then show ?thesis
          using \<open>fo = Some f0\<close> \<open>isInitialized st\<close> None u2
          by (simp add: deleteObject_def Let_def)
      next
        case False
        then show ?thesis
          using \<open>fo = Some f0\<close> \<open>isInitialized st\<close> None
            c [of "[Send (DeleteObjectCommand (p @ Key f0) (VersionId f0))]"]
          by (simp add: deleteObject_def Let_def)
      qed
    qed
  qed
qed

lemma uploadsAreFiles_deleteObjectWithVersions:
  assumes "uploadsAreFiles st"
  shows "uploadsAreFiles (final (deleteObjectWithVersions env be p f0 st))"
proof (cases "isInitialized st")
  case False
  then show ?thesis using assms by (simp add: deleteObjectWithVersions_def)
next
  case True
  show ?thesis
  proof (cases "versionsAnswer be (p @ Key f0)")
    case (Inl e)
    then show ?thesis using True assms by (simp add: deleteObjectWithVersions_def Let_def)
  next
    case (Inr response)
    have u: "uploadsAreFiles (removeFile f0
        (st\<lparr>uploading := filter (\<lambda>f. Key f \<noteq> p @ Key f0) (uploading st)\<rparr>))"
      using assms by (intro uploadsAreFiles_removeFile uploadsAreFiles_filter)
    show ?thesis
    proof (cases "firstError (map (\<lambda>v. deleteAnswer be (p @ Key f0) (VersionId v))
        (orEmpty (respVersions response) @ orEmpty (DeleteMarkers response)))")
      case None
      then show ?thesis using True Inr u by (simp add: deleteObjectWithVersions_def Let_def)
    next
      case (Some e)
      then show ?thesis using True Inr assms by (simp add: deleteObjectWithVersions_def Let_def)
    qed
  qed
qed

lemma uploadsAreFiles_deletePool:
  "uploadsAreFiles st \<Longrightarrow> uploadsAreFiles (final (deletePool env be sr w stack st))"
proof (induction env be sr w stack st rule: deletePool.induct)
  case (1 env be shouldRefresh stack st)
  then show ?case by simp
next
  case (2 env be shouldRefresh w st)
  then show ?case by simp
next
  case (3 env be shouldRefresh w f0 rest st)
  have "uploadsAreFiles (final (deleteObject env be [] (Some f0) True shouldRefresh st))"
    using "3.prems" by (rule uploadsAreFiles_deleteObject)
  then show ?case
    using "3.IH" by (simp add: Let_def)
qed

lemma uploadsAreFiles_foldl_andThen:
  "uploadsAreFiles (final r0) \<Longrightarrow>
   (\<And>sub s. sub \<in> set subs \<Longrightarrow> uploadsAreFiles s \<Longrightarrow> uploadsAreFiles (final (g sub s))) \<Longrightarrow>
   uploadsAreFiles (final (foldl (\<lambda>r sub. andThen r (g sub)) r0 subs))"
proof (induction subs arbitrary: r0)
  case Nil
  then show ?case by simp
next
  case (Cons a subs)
  have "uploadsAreFiles (final (andThen r0 (g a)))"
    using Cons.prems by (intro uploadsAreFiles_andThen) simp_all
  then show ?case
    using Cons.prems(2) by (simp add: Cons.IH)
qed

lemma uploadsAreFiles_recurse:
  "uploadsAreFiles st \<Longrightarrow> uploadsAreFiles (final (recurse env be wv sr fp t st))"
proof (induction env be wv sr fp t st rule: recurse.induct)
  case (1 env be withVersions shouldRefresh filePath e st)
  then show ?case by simp
next
  case (2 env be withVersions shouldRefresh filePath contents subs st)
  show ?case
    unfolding recurse.simps
  proof (rule uploadsAreFiles_andThen)
    show "uploadsAreFiles (final (andThen
        (returns st [Send (if withVersions then ListObjectVersionsCommand filePath None
                           else ListObjectsCommand filePath)])
        (deletePool env be shouldRefresh 3 (rev contents))))"
      by (rule uploadsAreFiles_andThen) (simp_all add: "2.prems" uploadsAreFiles_deletePool)
  next
    fix s
    assume s: "uploadsAreFiles s"
    show "uploadsAreFiles (final (foldl
        (\<lambda>r sub. andThen r (recurse env be withVersions shouldRefresh
                              (orBlank (Prefix (fst sub))) (snd sub)))
        (returns s []) subs))"
      by (rule uploadsAreFiles_foldl_andThen) (simp_all add: s "2.IH")
  qed
qed

lemma uploadsAreFiles_deleteFolder:
  assumes "uploadsAreFiles st"
  shows "uploadsAreFiles (final (deleteFolder env be file p sr st))"
proof (cases "isInitialized st")
  case False
  then show ?thesis using assms by (simp add: deleteFolder_def)
next
  case True
  have "uploadsAreFiles (final (andThen
          (andThen
             (recurse env be False sr (folderPrefix p file)
                (objectsAnswer be (folderPrefix p file)) (addFileToBeDeleted [file] st))
             (\<lambda>s. returns (removeFile file s) []))
          (\<lambda>s. if sr then refreshListing env be s else returns s [])))"
    by (intro uploadsAreFiles_andThen)
      (simp_all add: assms uploadsAreFiles_recurse uploadsAreFiles_addFileToBeDeleted
        uploadsAreFiles_removeFile uploadsAreFiles_refreshListing)
  then show ?thesis using True by (simp add: deleteFolder_def)
qed

lemma uploadsAreFiles_deleteFolderWithVersions:
  assumes "uploadsAreFiles st"
  shows "uploadsAreFiles (final (deleteFolderWithVersions env be file p st))"
proof (cases "isInitialized st")
  case False
  then show ?thesis using assms by (simp add: deleteFolderWithVersions_def)
next
  case True
  have "uploadsAreFiles (final (andThen
          (recurse env be True False (folderPrefix p file)
             (versionsTreeAnswer be (folderPrefix p file)) (addFileToBeDeleted [file] st))
          (\<lambda>s. returns (removeFile file s) [])))"
    by (intro uploadsAreFiles_andThen)
      (simp_all add: assms uploadsAreFiles_recurse uploadsAreFiles_addFileToBeDeleted
        uploadsAreFiles_removeFile)
  then show ?thesis using True by (simp add: deleteFolderWithVersions_def)
qed

lemma uploadsAreFiles_runAll:
  "(\<And>t s. t \<in> set ts \<Longrightarrow> uploadsAreFiles s \<Longrightarrow> uploadsAreFiles (final (t s))) \<Longrightarrow>
   uploadsAreFiles st \<Longrightarrow> uploadsAreFiles (final (runAll ts st))"
proof (induction ts arbitrary: st)
  case Nil
  then show ?case by simp
next
  case (Cons t ts)
  have "uploadsAreFiles (final (t st))"
    using Cons.prems by simp
  then have "uploadsAreFiles (final (runAll ts (final (t st))))"
    using Cons.prems(1) by (intro Cons.IH) simp_all
  then show ?case by (simp add: Let_def)
qed

lemma uploadsAreFiles_deleteTask:
  "uploadsAreFiles s \<Longrightarrow> uploadsAreFiles (final (deleteTask env be wv p file s))"
  by (simp add: deleteTask_def uploadsAreFiles_deleteObject
      uploadsAreFiles_deleteObjectWithVersions uploadsAreFiles_deleteFolder
      uploadsAreFiles_deleteFolderWithVersions)

lemma uploadsAreFiles_deleteSelected:
  assumes "uploadsAreFiles st"
  shows "uploadsAreFiles (final (deleteSelected env be wv st))"
  unfolding deleteSelected_def Let_def
  by (rule uploadsAreFiles_runAll)
    (auto simp: assms uploadsAreFiles_deleteTask uploadsAreFiles_addFileToBeDeleted)

lemma reachable_uploadsAreFiles: "reachable env st \<Longrightarrow> uploadsAreFiles st"
proof (induction rule: reachable.induct)
  case r_initial
  then show ?case by (simp add: uploadsAreFiles_def initialState_def)
next
  case (r_init st a k b e r m)
  then show ?case by (simp add: uploadsAreFiles_def init_def)
next
  case (r_reinit st a k e)
  then show ?case by (simp add: uploadsAreFiles_def reinit_def)
next
  case (r_clear st)
  then show ?case by (simp add: uploadsAreFiles_def clear_def)
next
  case (r_clearUploading st)
  then show ?case by (simp add: uploadsAreFiles_def clearUploading_def)
next
  case (r_clearTokens st)
  then show ?case by (simp add: uploadsAreFiles_def clearTokens_def)
next
  case (r_setCursor st c)
  then show ?case by (simp add: uploadsAreFiles_def setCursor_def)
next
  case (r_updateSelectedFiles st fs)
  then show ?case by (simp add: uploadsAreFiles_def updateSelectedFiles_def)
next
  case (r_toggle st)
  then show ?case
    by (simp add: uploadsAreFiles_def toggleShowObjectVersions_def Let_def clearTokens_def
        updateVersionsExpandedKeys_def updateSelectedFiles_def updateFiles_def)
next
  case (r_initList st p pages)
  then show ?case by (simp add: uploadsAreFiles_sameQueues [OF sameQueues_initList])
next
  case (r_listByToken st p n tok out)
  then show ?case by (simp add: uploadsAreFiles_sameQueues [OF sameQueues_listByToken])
next
  case (r_listCustom st p pg sv out)
  then show ?case by (simp add: uploadsAreFiles_sameQueues [OF sameQueues_listCustom])
next
  case (r_listAllVersions st p pg sv vout)
  then show ?case by (simp add: uploadsAreFiles_sameQueues [OF sameQueues_listAllVersions])
next
  case (r_upload st traversed ign)
  then show ?case by (simp add: uploadsAreFiles_upload)
next
  case (r_enqueueUpload st key body)
  then show ?case by (simp add: uploadsAreFiles_enqueueUpload)
next
  case (r_uploadStep st be key settled)
  then show ?case by (simp add: uploadsAreFiles_uploadStep)
next
  case (r_cancelUpload st key)
  then show ?case by (simp add: uploadsAreFiles_cancelUpload)
next
  case (r_deleteObject st be p fo isf sr)
  then show ?case by (simp add: uploadsAreFiles_deleteObject)
next
  case (r_deleteObjectWithVersions st be p f0)
  then show ?case by (simp add: uploadsAreFiles_deleteObjectWithVersions)
next
  case (r_deleteFolder st be f0 p sr)
  then show ?case by (simp add: uploadsAreFiles_deleteFolder)
next
  case (r_deleteFolderWithVersions st be f0 p)
  then show ?case by (simp add: uploadsAreFiles_deleteFolderWithVersions)
next
  case (r_deleteSelected st be wv)
  then show ?case by (simp add: uploadsAreFiles_deleteSelected)
qed


lemma sameClient_processFetchedObjects:
  "s3 (processFetchedObjects env p contents cps st) = s3 st"
  by (simp add: processFetchedObjects_def Let_def updateFiles_def)

lemma listedRoot_facts:
  "isInitialized listedRoot \<and> files listedRoot =
     [folderA, asBrowserObject ((storedObject ''b.txt'' 9 3 300)\<lparr>path := Some [], otype := Some TFile\<rparr>)] \<and>
   filesToBeDeleted listedRoot = {}"
  using st0_initialized
  by (simp add: listedRoot_def folderA_def delimitedListing_def bucketA_def Let_def
      initList_def truthy_def returns_def processFetchedObjects_def env0_def
      orEmpty_def insertionSort_def contentsCompare_def storedObject_def updateFiles_def
      isFileVisible_def makeFileRelative_def asBrowserObject_def JsObject.extend_def
      isPrefixDefined_def prefixToFolder_def sublist_code isInitialized_def st0_def init_def
      initialState_def)

lemma reachable_listedRoot: "reachable env0 listedRoot"
proof -
  have "reachable env0 st0"
    unfolding st0_def by (rule reachable.r_init [OF reachable.r_initial])
  then show ?thesis
    unfolding listedRoot_def by (rule reachable.r_initList)
qed

lemma folderA_facts:
  "otype folderA = Some TFolder \<and> compositeKey folderA = ''a'' \<and> Key folderA = ''a''"
  by (simp add: folderA_def prefixToFolder_def compositeKey_def orBlank_def)

text \<open>
  A folder is marked for deletion. \<open>deleteFolder\<close> puts the composite key of the folder in
  \<open>filesToBeDeleted\<close> before it lists anything; when the listing fails, the action throws
  and the key stays there, next to the folder row still in \<open>files\<close>.
\<close>

theorem folder_pending_deletion_counterexample:
  "reachable env0 (final (deleteFolder env0 failingBackend folderA [] True listedRoot)) \<and>
   thrown (deleteFolder env0 failingBackend folderA [] True listedRoot) = Some networkError \<and>
   otype folderA = Some TFolder \<and>
   folderA \<in> set (files (final (deleteFolder env0 failingBackend folderA [] True listedRoot))) \<and>
   compositeKey folderA \<in>
     filesToBeDeleted (final (deleteFolder env0 failingBackend folderA [] True listedRoot))"
proof -
  have r: "reachable env0 (final (deleteFolder env0 failingBackend folderA [] True listedRoot))"
    using reachable_listedRoot by (rule reachable.r_deleteFolder)
  have d: "deleteFolder env0 failingBackend folderA [] True listedRoot =
           throws networkError (addFileToBeDeleted [folderA] listedRoot)
             [Send (ListObjectsCommand ''a/'')]"
    using listedRoot_facts folderA_facts
    by (simp add: deleteFolder_def failingBackend_def folderPrefix_def andThen_def throws_def)
  show ?thesis
    using r listedRoot_facts folderA_facts
    by (simp add: d addFileToBeDeleted_def)
qed

lemma deleteFolder_unmarks:
  assumes ok: "thrown (deleteFolder env be f0 p sr st) = None"
  shows "compositeKey f0 \<notin> filesToBeDeleted (final (deleteFolder env be f0 p sr st))"
proof -
  have i: "isInitialized st"
    using ok by (auto simp: deleteFolder_def split: if_splits)
  let ?R = "recurse env be False sr (folderPrefix p f0)
              (objectsAnswer be (folderPrefix p f0)) (addFileToBeDeleted [f0] st)"
  let ?A = "andThen ?R (\<lambda>s. returns (removeFile f0 s) [])"
  let ?rf = "\<lambda>s. if sr then refreshListing env be s else returns s []"
  have d: "deleteFolder env be f0 p sr st = andThen ?A ?rf"
    using i by (simp add: deleteFolder_def)
  have tA: "thrown ?A = None"
    using ok unfolding d by (simp add: thrown_andThen split: option.splits)
  have tR: "thrown ?R = None"
    using tA by (simp add: thrown_andThen split: option.splits)
  have fA: "final ?A = removeFile f0 (final ?R)"
    using tR by (simp add: final_andThen)
  have fB: "final (andThen ?A ?rf) = final (?rf (final ?A))"
    using tA by (simp add: final_andThen)
  have q: "filesToBeDeleted (final (?rf s)) = filesToBeDeleted s" for s
    using sameQueues_refreshListing [of s env be] by (simp add: sameQueues_def)
  show ?thesis
    unfolding d fB q fA by (simp add: removeFile_queues)
qed

lemma deleteFolder_working:
  "thrown (deleteFolder env0 workingBackend folderA [] False listedRoot) = None"
proof -
  have o: "deleteObject env0 workingBackend [] (Some (ob :: JsObject)) True False s =
           (if isInitialized s
            then returns (s\<lparr>uploading := filter (\<lambda>f. Key f \<noteq> Key ob) (uploading s)\<rparr>)
                   [Send (DeleteObjectCommand (Key ob) (VersionId ob))]
            else throws UninitializedError s [])" for ob s
    by (simp add: deleteObject_def workingBackend_def Let_def)
  have p: "thrown (deletePool env0 workingBackend False 3 stack s) = None"
    if "isInitialized s" for stack s
    using that
  proof (induction stack arbitrary: s)
    case Nil
    then show ?case by (simp add: numeral_3_eq_3)
  next
    case (Cons a stack)
    have "isInitialized (s\<lparr>uploading := filter (\<lambda>f. Key f \<noteq> Key a) (uploading s)\<rparr>)"
      using Cons.prems by (simp add: isInitialized_def)
    then show ?case
      using Cons.prems Cons.IH by (simp add: numeral_3_eq_3 o Let_def)
  qed
  have i: "isInitialized (addFileToBeDeleted [folderA] listedRoot)"
    using listedRoot_facts by (simp add: addFileToBeDeleted_def isInitialized_def)
  show ?thesis
    using listedRoot_facts folderA_facts p [OF i]
    by (simp add: deleteFolder_def workingBackend_def folderPrefix_def thrown_andThen
        final_andThen split: option.splits)
qed

text \<open>
  C1, amended. In every state reachable by the actions of the store, every entry of
  \<open>uploading\<close> has type \<open>file\<close>, so no folder is ever among the uploads. The composite
  key of a folder does enter \<open>filesToBeDeleted\<close> while the folder is being deleted; when
  \<open>deleteFolder\<close> returns without an error, the key is no longer there.
\<close>

theorem folders_never_uploading:
  "(reachable env st \<longrightarrow> list_all (\<lambda>f. otype f = Some TFile) (uploading st)) \<and>
   (thrown (deleteFolder env be (f0 :: BrowserObject) p sr st) = None \<longrightarrow>
      compositeKey f0 \<notin> filesToBeDeleted (final (deleteFolder env be f0 p sr st)))"
  using reachable_uploadsAreFiles [of env st] deleteFolder_unmarks [of env be f0 p sr st]
  by (simp add: uploadsAreFiles_def)

theorem folders_never_uploading_witness:
  "reachable env0 stUploading \<and>
   list_all (\<lambda>f. otype f = Some TFile) (uploading stUploading) \<and>
   uploading stUploading \<noteq> [] \<and>
   thrown (deleteFolder env0 workingBackend folderA [] False listedRoot) = None \<and>
   compositeKey folderA \<notin>
     filesToBeDeleted (final (deleteFolder env0 workingBackend folderA [] False listedRoot))"
proof -
  have "reachable env0 st0"
    unfolding st0_def by (rule reachable.r_init [OF reachable.r_initial])
  then have r: "reachable env0 stUploading"
    unfolding stUploading_def by (rule reachable.r_enqueueUpload)
  have n: "uploading stUploading \<noteq> []"
    by (simp add: stUploading_def enqueueUpload_def st0_def init_def initialState_def
      isInitialized_def returns_def MAX_UPLOAD_SIZE_def smallFile_def)
  show ?thesis
    using folders_never_uploading [of env0 stUploading workingBackend folderA "[]" False]
      folders_never_uploading [of env0 listedRoot workingBackend folderA "[]" False]
      r n deleteFolder_working
    by simp
qed

section \<open>Cancelling an upload\<close>

lemma find_updateFirst_same:
  "find P xs = Some x \<Longrightarrow> P (g x) \<Longrightarrow> find P (updateFirst P g xs) = Some (g x)"
  by (induction xs) (auto split: if_splits)

text \<open>
  When \<open>cancelUpload\<close> finds the entry of the key, it does not throw, the entry it
  found now has status \<open>Cancelled\<close>, and \<open>handleUploadError\<close> on that entry with an
  \<open>AbortError\<close> leaves the entry as it is (not \<open>Failed\<close>) and notifies nobody. And as
  long as the key is not enqueued again, the step of the cancelled upload finds no entry
  and does nothing, however the transfer settles.
\<close>

lemma cancelUpload_abort_swallowed:
  assumes "find (\<lambda>f. Key f = key) (uploading st) = Some file"
  shows "thrown (cancelUpload key st) = None \<and>
         find (\<lambda>f. Key f = key) (uploading (final (cancelUpload key st))) =
           Some (file\<lparr>status := Cancelled\<rparr>) \<and>
         handleUploadError (file\<lparr>status := Cancelled\<rparr>)
           \<lparr>errName = ''AbortError'', errMessage = msg\<rparr> =
           (file\<lparr>status := Cancelled\<rparr>, [])"
proof -
  have k: "Key file = key"
    using assms by (auto simp: find_Some_iff)
  have "find (\<lambda>f. Key f = key)
          (updateFirst (\<lambda>f. Key f = key) (\<lambda>f. f\<lparr>status := Cancelled\<rparr>) (uploading st)) =
        Some (file\<lparr>status := Cancelled\<rparr>)"
    using assms k by (intro find_updateFirst_same) simp_all
  then show ?thesis
    using assms by (simp add: cancelUpload_def returns_def handleUploadError_def)
qed

lemma uploading_st0: "uploading st0 = []"
  by (simp add: st0_def init_def initialState_def)

lemma bucket_st0: "bucket st0 = ''bucket''"
  by (simp add: st0_def init_def initialState_def)

lemma enqueueUpload_fresh:
  assumes "isInitialized st" and "\<not> list_ex (\<lambda>f. Key f = key \<and> status f = InProgress) (uploading st)"
    and "\<not> fileSize body > MAX_UPLOAD_SIZE"
  shows "enqueueUpload env key body st =
     returns (st\<lparr>uploading := removeFirst (\<lambda>f. Key f = key) (uploading st) @
                   [uploadingObject env (bucket st) key body True InProgress None],
                 uploadChain := uploadChain st @ [key]\<rparr>)
       [SetUploadingModal True, NewUpload key]"
  using assms by (simp add: enqueueUpload_def Let_def)

lemma isInitialized_uploading [simp]:
  "isInitialized (st\<lparr>uploading := u\<rparr>) = isInitialized st"
  "isInitialized (st\<lparr>uploadChain := c\<rparr>) = isInitialized st"
  by (simp_all add: isInitialized_def)

lemma stBehind_facts:
  "isInitialized stBehind \<and> bucket stBehind = ''bucket'' \<and>
   uploading stBehind =
     [uploadingObject env0 ''bucket'' ''b.txt'' limitFile True InProgress None,
      uploadingObject env0 ''bucket'' ''a.txt'' smallFile True InProgress None]"
proof -
  let ?s1 = "st0\<lparr>uploading :=
                   [uploadingObject env0 ''bucket'' ''b.txt'' limitFile True InProgress None],
                 uploadChain := uploadChain st0 @ [''b.txt'']\<rparr>"
  have 1: "enqueueUpload env0 ''b.txt'' limitFile st0 =
             returns ?s1 [SetUploadingModal True, NewUpload ''b.txt'']"
    using enqueueUpload_fresh [of st0 "''b.txt''" limitFile env0]
    by (simp add: st0_initialized uploading_st0 bucket_st0 MAX_UPLOAD_SIZE_def limitFile_def)
  have 2: "enqueueUpload env0 ''a.txt'' smallFile ?s1 =
             returns (?s1\<lparr>uploading :=
                 [uploadingObject env0 ''bucket'' ''b.txt'' limitFile True InProgress None,
                  uploadingObject env0 ''bucket'' ''a.txt'' smallFile True InProgress None],
                 uploadChain := uploadChain ?s1 @ [''a.txt'']\<rparr>)
               [SetUploadingModal True, NewUpload ''a.txt'']"
    using enqueueUpload_fresh [of ?s1 "''a.txt''" smallFile env0]
    by (simp add: st0_initialized bucket_st0 MAX_UPLOAD_SIZE_def smallFile_def
        uploadingObject_def)
  show ?thesis
    unfolding stBehind_def 1 final_returns 2
    by (simp add: st0_initialized bucket_st0)
qed

lemma cancel_stBehind:
  "cancelUpload ''a.txt'' stBehind =
     returns (stBehind\<lparr>uploading :=
        [uploadingObject env0 ''bucket'' ''b.txt'' limitFile True InProgress None,
         uploadingObject env0 ''bucket'' ''a.txt'' smallFile True Cancelled None]\<rparr>)
       [UploadAbort ''a.txt'']"
  by (simp add: cancelUpload_def stBehind_facts uploadingObject_def)

lemma stReenqueued_facts:
  "isInitialized stReenqueued \<and>
   uploading stReenqueued =
     [uploadingObject env0 ''bucket'' ''b.txt'' limitFile True InProgress None,
      uploadingObject env0 ''bucket'' ''a.txt'' smallFile True InProgress None]"
proof -
  let ?s3 = "stBehind\<lparr>uploading :=
        [uploadingObject env0 ''bucket'' ''b.txt'' limitFile True InProgress None,
         uploadingObject env0 ''bucket'' ''a.txt'' smallFile True Cancelled None]\<rparr>"
  have 3: "enqueueUpload env0 ''a.txt'' smallFile ?s3 =
             returns (?s3\<lparr>uploading :=
                 [uploadingObject env0 ''bucket'' ''b.txt'' limitFile True InProgress None,
                  uploadingObject env0 ''bucket'' ''a.txt'' smallFile True InProgress None],
                 uploadChain := uploadChain ?s3 @ [''a.txt'']\<rparr>)
               [SetUploadingModal True, NewUpload ''a.txt'']"
    using enqueueUpload_fresh [of ?s3 "''a.txt''" smallFile env0]
    by (simp add: stBehind_facts MAX_UPLOAD_SIZE_def smallFile_def uploadingObject_def)
  show ?thesis
    unfolding stReenqueued_def cancel_stBehind final_returns 3
    by (simp add: stBehind_facts)
qed

lemma stFirstEnded_facts:
  "uploading stFirstEnded =
     [uploadingObject env0 ''bucket'' ''b.txt'' limitFile True Failed (Some MsgFailed),
      uploadingObject env0 ''bucket'' ''a.txt'' smallFile True InProgress None]"
  by (simp add: stFirstEnded_def uploadStep_def stReenqueued_facts uploadingObject_def
      handleUploadError_def transferError_def returns_def)

lemma reachable_stFirstEnded: "reachable env0 stFirstEnded"
proof -
  have "reachable env0 st0"
    unfolding st0_def by (intro r_init r_initial)
  then show ?thesis
    unfolding stFirstEnded_def stReenqueued_def stBehind_def
    by (intro r_uploadStep r_enqueueUpload r_cancelUpload)
qed

lemma uploadStep_after_cancel:
  assumes "distinct (map Key (uploading st))"
    and "find (\<lambda>f. Key f = key) (uploading st) = Some f0"
  shows "uploadStep env be key settled (final (cancelUpload key st)) =
           returns (final (cancelUpload key st)) []"
proof -
  have "find (\<lambda>f. Key f = key \<and> status f \<noteq> Cancelled)
          (updateFirst (\<lambda>f. Key f = key) (\<lambda>f. f\<lparr>status := Cancelled\<rparr>) xs) = None"
    if "distinct (map Key xs)" for xs :: "UploadingBrowserObject list"
    using that
  proof (induction xs)
    case Nil
    then show ?case by simp
  next
    case (Cons x xs)
    show ?case
    proof (cases "Key x = key")
      case True
      then have "\<forall>y\<in>set xs. Key y \<noteq> key" using Cons.prems by (force simp: image_iff)
      then have "find (\<lambda>f. Key f = key \<and> status f \<noteq> Cancelled) xs = None"
        by (auto simp: find_None_iff)
      then show ?thesis using True by simp
    next
      case False
      then show ?thesis using Cons by simp
    qed
  qed
  then show ?thesis
    using assms by (simp add: uploadStep_def cancelUpload_def returns_def)
qed

text \<open>
  C8. The step chained for an upload looks its entry up by key when it begins. When an
  upload that waits in the chain is cancelled and the same key is enqueued again before
  its step begins, that step finds the entry of the new upload; the cancelled transfer
  fails with its \<open>AbortError\<close>, and the step marks the new entry \<open>Failed\<close> and notifies
  the failure. Here \<open>b.txt\<close> is uploading; \<open>a.txt\<close> is enqueued behind it, cancelled and
  enqueued again; the step of \<open>b.txt\<close> ends and the step of the cancelled upload begins.
\<close>

theorem cancelUpload_stale_abort_reported:
  "reachable env0 stFirstEnded \<and>
   trace (cancelUpload ''a.txt'' stBehind) = [UploadAbort ''a.txt''] \<and>
   map (\<lambda>f. (Key f, status f)) (uploading (final (cancelUpload ''a.txt'' stBehind))) =
     [(''b.txt'', InProgress), (''a.txt'', Cancelled)] \<and>
   map (\<lambda>f. (Key f, status f)) (uploading stFirstEnded) =
     [(''b.txt'', Failed), (''a.txt'', InProgress)] \<and>
   chainRun [Enqueue ''b.txt'', Begin 0, Enqueue ''a.txt'', Enqueue ''a.txt'', Finish 0 True,
             Begin 1] chainInitial \<noteq> None \<and>
   trace (uploadStep env0 failingBackend ''a.txt'' (Some abortError) stFirstEnded) =
     [NotifyError ''Upload aborted.''] \<and>
   map (\<lambda>f. (Key f, status f, failedMessage f))
     (uploading (final (uploadStep env0 failingBackend ''a.txt'' (Some abortError) stFirstEnded))) =
     [(''b.txt'', Failed, Some MsgFailed), (''a.txt'', Failed, Some MsgFailed)]"
proof -
  have c: "chainRun [Enqueue ''b.txt'', Begin 0, Enqueue ''a.txt'', Enqueue ''a.txt'',
             Finish 0 True, Begin 1] chainInitial \<noteq> None"
    by (simp add: chainInitial_def)
  have s: "uploadStep env0 failingBackend ''a.txt'' (Some abortError) stFirstEnded =
     returns (stFirstEnded\<lparr>uploading :=
        [uploadingObject env0 ''bucket'' ''b.txt'' limitFile True Failed (Some MsgFailed),
         uploadingObject env0 ''bucket'' ''a.txt'' smallFile True Failed (Some MsgFailed)]\<rparr>)
       [NotifyError ''Upload aborted.'']"
    by (simp add: uploadStep_def stFirstEnded_facts uploadingObject_def handleUploadError_def
        abortError_def sublist_code)
  show ?thesis
    using c reachable_stFirstEnded
    by (simp add: s cancel_stBehind stFirstEnded_facts returns_def uploadingObject_def)
qed
end
